theory Spec2Isabelle
  imports Complex_Main
begin

section \<open>Bill splitter: data model\<close>

text \<open>
  The registry of participants, \<^verbatim>\<open>WildMan = Enum('WildMan', [...])\<close>, in the order of
  the enumeration. The ledger dictionary is created from the member names in this order,
  and a Python dictionary iterates in insertion order.
\<close>

datatype WildMan = Nishant | Steve | Joe | Elton | John | Dim

definition members :: "WildMan list" where
  "members = [Nishant, Steve, Joe, Elton, John, Dim]"

datatype error = IndexError | ValueError | AssertionError

subsection \<open>Monetary values\<close>

text \<open>
  Modelled from the spec: the class \<^verbatim>\<open>Money\<close> and the rate table \<^verbatim>\<open>xrates\<close> come from the
  external money library, which is not part of the repository. A monetary value is an
  exact amount tagged with a currency code. Amounts are rationals: the library's decimal
  arithmetic is taken as exact (the spec's "exact decimal"), its working precision is not
  modelled. Arithmetic between two values of different currencies converts the operand to
  the currency of the accumulator through the rate table, which is a parameter here.
\<close>

record Money =
  amount :: rat
  currency :: string

type_synonym xrates = "string \<Rightarrow> string \<Rightarrow> rat"

text \<open>\<^verbatim>\<open>Money(x, 'USD')\<close>, a value in the base currency.\<close>

definition usd :: "rat \<Rightarrow> Money" where
  "usd x = \<lparr>amount = x, currency = ''USD''\<rparr>"

text \<open>
  Modelled from the spec: conversion of a value to the currency \<open>c\<close> through the rate
  table; a value already in that currency is returned as it is.
\<close>

definition Money_to :: "xrates \<Rightarrow> string \<Rightarrow> Money \<Rightarrow> Money" where
  "Money_to xr c v =
     (if currency v = c then v
      else \<lparr>amount = amount v * xr (currency v) c, currency = c\<rparr>)"

text \<open>
  Modelled from the spec: addition, subtraction and comparison convert the right operand
  to the currency of the left one; multiplication by a number, negation and the absolute
  value keep the currency; \<^verbatim>\<open>is_zero\<close> tests the amount.
\<close>

definition money_add :: "xrates \<Rightarrow> Money \<Rightarrow> Money \<Rightarrow> Money" where
  "money_add xr a b =
     \<lparr>amount = amount a + amount (Money_to xr (currency a) b), currency = currency a\<rparr>"

definition money_sub :: "xrates \<Rightarrow> Money \<Rightarrow> Money \<Rightarrow> Money" where
  "money_sub xr a b =
     \<lparr>amount = amount a - amount (Money_to xr (currency a) b), currency = currency a\<rparr>"

definition money_scale :: "rat \<Rightarrow> Money \<Rightarrow> Money" where
  "money_scale d v = \<lparr>amount = d * amount v, currency = currency v\<rparr>"

definition money_abs :: "Money \<Rightarrow> Money" where
  "money_abs v = \<lparr>amount = \<bar>amount v\<bar>, currency = currency v\<rparr>"

definition money_lt :: "xrates \<Rightarrow> Money \<Rightarrow> Money \<Rightarrow> bool" where
  "money_lt xr a b = (amount a < amount (Money_to xr (currency a) b))"

definition money_gt :: "xrates \<Rightarrow> Money \<Rightarrow> Money \<Rightarrow> bool" where
  "money_gt xr a b = (amount a > amount (Money_to xr (currency a) b))"

definition is_zero :: "Money \<Rightarrow> bool" where
  "is_zero v = (amount v = 0)"

text \<open>
  Modelled from the spec: \<^verbatim>\<open>round(v, ndigits=n)\<close> quantizes the amount to \<open>n\<close> fractional
  digits. Of the two tie rules the spec allows, a tie goes to the even neighbour, the
  default rounding of Python's decimals.
\<close>

definition round_half_even :: "rat \<Rightarrow> int" where
  "round_half_even x =
     (let f = \<lfloor>x\<rfloor>; d = x - of_int f
      in if d < 1 / 2 then f
         else if 1 / 2 < d then f + 1
         else if even f then f else f + 1)"

definition quantize :: "nat \<Rightarrow> rat \<Rightarrow> rat" where
  "quantize n x = of_int (round_half_even (x * 10 ^ n)) / 10 ^ n"

definition money_round :: "nat \<Rightarrow> Money \<Rightarrow> Money" where
  "money_round n v = \<lparr>amount = quantize n (amount v), currency = currency v\<rparr>"

text \<open>The two-argument builtin \<^verbatim>\<open>min(a, b)\<close>: \<open>b\<close> is taken only when \<open>b < a\<close>.\<close>

definition money_min :: "xrates \<Rightarrow> Money \<Rightarrow> Money \<Rightarrow> Money" where
  "money_min xr a b = (if money_lt xr b a then b else a)"

subsection \<open>Transactions\<close>

text \<open>
  \<^verbatim>\<open>class Transaction\<close>. The entries of \<open>split\<close> are the values that \<^verbatim>\<open>Decimal(...)\<close> gives
  to the list's elements: the decimal a string of the input file denotes, or the exact
  value of a float of the even split.
\<close>

record Transaction =
  amt :: Money
  creditor :: WildMan
  recipients :: "WildMan list"
  split :: "rat list"
  desc :: string

text \<open>
  Python's true division \<^verbatim>\<open>1/n\<close> of integers, for \<open>n > 0\<close>: the double nearest to the
  quotient (53 significant bits, a tie going to the even significand), as the rational
  it denotes; \<^verbatim>\<open>Decimal(...)\<close> of a float is that same value. With \<open>k\<close> the least exponent
  such that \<open>n \<le> 2 ^ k\<close>, the quotient lies between \<open>2 ^ -k\<close> and \<open>2 ^ (1-k)\<close>, where
  doubles are \<open>2 ^ -(k+52)\<close> apart. Subnormal results (\<open>n\<close> beyond \<open>2 ^ 1022\<close>) are not
  modelled; \<open>n = 0\<close> is never asked for, since the source divides once per recipient.
\<close>

definition float_recip :: "nat \<Rightarrow> rat" where
  "float_recip n =
     (let k = (case find (\<lambda>k. n \<le> 2 ^ k) [0..<Suc n] of Some k \<Rightarrow> k | None \<Rightarrow> 0)
      in of_int (round_half_even ((1 / of_nat n) * 2 ^ (k + 52))) / 2 ^ (k + 52))"

text \<open>
  \<^verbatim>\<open>Transaction.__init__\<close>. An omitted \<^verbatim>\<open>recipients\<close> argument (\<open>None\<close> here) is the whole
  registry; \<^verbatim>\<open>split=None\<close> is the even split, the float \<^verbatim>\<open>1/len(self.recipients)\<close> for
  every recipient; the amount is rounded to cents.
\<close>

definition Transaction_init ::
  "Money \<Rightarrow> WildMan \<Rightarrow> WildMan list option \<Rightarrow> rat list option \<Rightarrow> string \<Rightarrow> Transaction" where
  "Transaction_init a c rs sp d =
     (let rs' = (case rs of None \<Rightarrow> members | Some l \<Rightarrow> l)
      in \<lparr>amt = money_round 2 a,
          creditor = c,
          recipients = rs',
          split = (case sp of
                     None \<Rightarrow> map (\<lambda>_. float_recip (length rs')) rs'
                   | Some l \<Rightarrow> l),
          desc = d\<rparr>)"

text \<open>\<^verbatim>\<open>list.index\<close>: the position of the first occurrence (the caller has checked membership).\<close>

fun index_of :: "'a list \<Rightarrow> 'a \<Rightarrow> nat" where
  "index_of [] y = 0"
| "index_of (x # xs) y = (if x = y then 0 else Suc (index_of xs y))"

text \<open>\<^verbatim>\<open>Transaction.obligation\<close>; reading \<open>split\<close> past its end raises \<^verbatim>\<open>IndexError\<close>.\<close>

definition obligation :: "Transaction \<Rightarrow> WildMan \<Rightarrow> error + Money" where
  "obligation t wm =
     (if creditor t = wm then Inr (amt t)
      else if wm \<in> set (recipients t) then
        (let i = index_of (recipients t) wm
         in if i < length (split t)
            then Inr (money_scale (- (split t ! i)) (amt t))
            else Inl IndexError)
      else Inr \<lparr>amount = 0, currency = ''USD''\<rparr>)"

text \<open>\<^verbatim>\<open>Transaction.__mul__\<close>: \<^verbatim>\<open>Decimal(other) * self.amt\<close>.\<close>

definition Transaction_mul :: "Transaction \<Rightarrow> rat \<Rightarrow> Money" where
  "Transaction_mul t p = money_scale p (amt t)"

section \<open>Ledger accumulation\<close>

text \<open>
  The dictionary \<^verbatim>\<open>moneyOwed\<close> has exactly the registry's members as keys, so it is a total
  function on them; its items are listed in registry order.
\<close>

type_synonym ledger = "WildMan \<Rightarrow> Money"

definition moneyOwed_init :: ledger where
  "moneyOwed_init = (\<lambda>_. \<lparr>amount = 0, currency = ''USD''\<rparr>)"

text \<open>The inner loop over \<^verbatim>\<open>zip(t.recipients, t.split)\<close>.\<close>

fun debit_recipients :: "xrates \<Rightarrow> Transaction \<Rightarrow> (WildMan \<times> rat) list \<Rightarrow> ledger \<Rightarrow> ledger" where
  "debit_recipients xr t [] m = m"
| "debit_recipients xr t ((r, p) # rps) m =
     debit_recipients xr t rps (m(r := money_sub xr (m r) (Transaction_mul t p)))"

text \<open>The body of the outer loop, for one transaction.\<close>

definition accumulate_tx :: "xrates \<Rightarrow> ledger \<Rightarrow> Transaction \<Rightarrow> ledger" where
  "accumulate_tx xr m t =
     debit_recipients xr t (zip (recipients t) (split t))
       (m(creditor t := money_add xr (m (creditor t)) (amt t)))"

definition accumulate :: "xrates \<Rightarrow> Transaction list \<Rightarrow> ledger" where
  "accumulate xr ts = foldl (accumulate_tx xr) moneyOwed_init ts"

section \<open>Settlement\<close>

definition items :: "ledger \<Rightarrow> (WildMan \<times> Money) list" where
  "items m = map (\<lambda>w. (w, m w)) members"

text \<open>The loop guard, negated: every balance rounds to zero at two decimals.\<close>

definition all_zero :: "ledger \<Rightarrow> bool" where
  "all_zero m = list_all (\<lambda>v. is_zero (money_round 2 v)) (map snd (items m))"

text \<open>
  \<^verbatim>\<open>min(iterable, key=...)\<close> and \<^verbatim>\<open>max(iterable, key=...)\<close>: the running best is replaced
  only by a strictly smaller (larger) key, so the first of several equal entries wins;
  an empty iterable raises \<^verbatim>\<open>ValueError\<close>.
\<close>

primrec first_min :: "xrates \<Rightarrow> WildMan \<times> Money \<Rightarrow> (WildMan \<times> Money) list \<Rightarrow> WildMan \<times> Money" where
  "first_min xr best [] = best"
| "first_min xr best (x # xs) =
     first_min xr (if money_lt xr (snd x) (snd best) then x else best) xs"

primrec first_max :: "xrates \<Rightarrow> WildMan \<times> Money \<Rightarrow> (WildMan \<times> Money) list \<Rightarrow> WildMan \<times> Money" where
  "first_max xr best [] = best"
| "first_max xr best (x # xs) =
     first_max xr (if money_gt xr (snd x) (snd best) then x else best) xs"

definition py_min :: "xrates \<Rightarrow> (WildMan \<times> Money) list \<Rightarrow> error + WildMan \<times> Money" where
  "py_min xr xs = (case xs of [] \<Rightarrow> Inl ValueError | x # xs' \<Rightarrow> Inr (first_min xr x xs'))"

definition py_max :: "xrates \<Rightarrow> (WildMan \<times> Money) list \<Rightarrow> error + WildMan \<times> Money" where
  "py_max xr xs = (case xs of [] \<Rightarrow> Inl ValueError | x # xs' \<Rightarrow> Inr (first_max xr x xs'))"

text \<open>One pass through the body of the settlement loop: the new ledger and the payment.\<close>

definition settle_step :: "xrates \<Rightarrow> ledger \<Rightarrow> error + ledger \<times> Transaction" where
  "settle_step xr moneyOwed =
     (case py_min xr (items moneyOwed) of
        Inl e \<Rightarrow> Inl e
      | Inr biggestDebtor \<Rightarrow>
     (case py_max xr (items moneyOwed) of
        Inl e \<Rightarrow> Inl e
      | Inr biggestCreditor \<Rightarrow>
        if fst biggestCreditor = fst biggestDebtor then Inl AssertionError
        else
          let a = money_min xr (snd biggestCreditor) (money_abs (snd biggestDebtor));
              m1 = moneyOwed(fst biggestDebtor := money_add xr (snd biggestDebtor) a);
              m2 = m1(fst biggestCreditor := money_sub xr (snd biggestCreditor) a)
          in Inr (m2, Transaction_init a (fst biggestCreditor) (Some [fst biggestDebtor]) None '''')))"

text \<open>
  The settlement loop. It need not end, so it is a partial function: \<open>None\<close> is a run
  that never returns, \<open>Some (Inl e)\<close> a run stopped by an exception.
\<close>

partial_function (option) settle_loop ::
  "xrates \<Rightarrow> ledger \<Rightarrow> Transaction list \<Rightarrow> (error + ledger \<times> Transaction list) option" where
  "settle_loop xr moneyOwed paymentsToMake =
     (if all_zero moneyOwed then Some (Inr (moneyOwed, paymentsToMake))
      else case settle_step xr moneyOwed of
             Inl e \<Rightarrow> Some (Inl e)
           | Inr (m', p) \<Rightarrow> settle_loop xr m' (paymentsToMake @ [p]))"

definition settle :: "xrates \<Rightarrow> ledger \<Rightarrow> (error + ledger \<times> Transaction list) option" where
  "settle xr moneyOwed = settle_loop xr moneyOwed []"

section \<open>Predicates on ledgers\<close>

text \<open>The sum of all balances of a ledger, over the registry.\<close>

definition total :: "ledger \<Rightarrow> rat" where
  "total m = sum_list (map (\<lambda>v. amount (snd v)) (items m))"

text \<open>The zero-sum predicate: the balances sum to zero within the rounding tolerance.\<close>

definition zero_sum :: "ledger \<Rightarrow> bool" where
  "zero_sum m = (quantize 2 (total m) = 0)"

text \<open>
  Every balance is in the base currency. The accumulation starts from \<^verbatim>\<open>Money('0','USD')\<close>
  and an addition keeps the currency of the accumulator, so the ledgers it hands to the
  settlement are of this kind.
\<close>

definition ledger_usd :: "ledger \<Rightarrow> bool" where
  "ledger_usd m = list_all (\<lambda>v. currency (snd v) = ''USD'') (items m)"

text \<open>The participants whose balance is not exactly zero.\<close>

definition nonzero :: "ledger \<Rightarrow> WildMan set" where
  "nonzero m = {w \<in> set members. amount (m w) \<noteq> 0}"

section \<open>Obligations of a transaction\<close>

lemma index_of_nth: "distinct xs \<Longrightarrow> i < length xs \<Longrightarrow> index_of xs (xs ! i) = i"
proof (induction xs arbitrary: i)
  case Nil
  then show ?case by simp
next
  case (Cons x xs)
  show ?case
  proof (cases i)
    case 0
    then show ?thesis by simp
  next
    case (Suc j)
    with Cons.prems have "j < length xs" "xs ! j \<in> set xs" "x \<notin> set xs" "distinct xs"
      by auto
    with Cons.IH [of j] Suc show ?thesis by auto
  qed
qed

text \<open>
  C4. \<open>obligation\<close> returns the transaction's amount for the payer (whether or not the
  payer is also a recipient: that branch is tested first); for a recipient at index \<open>i\<close>
  who is not the payer it returns \<open>-(split[i] * amount)\<close>; for anyone else it returns
  zero. The recipients are unique and every recipient has a share, as the data model of
  transactions requires.
\<close>

theorem obligation_cases:
  "(creditor t = w \<longrightarrow> obligation t w = Inr (amt t)) \<and>
   (creditor t \<noteq> w \<and> distinct (recipients t) \<and> i < length (recipients t) \<and>
    i < length (split t) \<and> recipients t ! i = w \<longrightarrow>
      obligation t w =
        Inr \<lparr>amount = - (split t ! i * amount (amt t)), currency = currency (amt t)\<rparr>) \<and>
   (creditor t \<noteq> w \<and> w \<notin> set (recipients t) \<longrightarrow>
      obligation t w = Inr \<lparr>amount = 0, currency = ''USD''\<rparr>)"
  using index_of_nth [of "recipients t" i]
  by (auto simp: obligation_def money_scale_def Let_def)

theorem obligation_cases_witness:
  "obligation \<lparr>amt = \<lparr>amount = 90, currency = ''USD''\<rparr>, creditor = Nishant,
       recipients = [Nishant, Steve, Joe], split = [1/2, 1/4, 1/4], desc = ''''\<rparr> Nishant
     = Inr \<lparr>amount = 90, currency = ''USD''\<rparr> \<and>
   obligation \<lparr>amt = \<lparr>amount = 90, currency = ''USD''\<rparr>, creditor = Nishant,
       recipients = [Nishant, Steve, Joe], split = [1/2, 1/4, 1/4], desc = ''''\<rparr> Joe
     = Inr \<lparr>amount = - (45/2), currency = ''USD''\<rparr> \<and>
   obligation \<lparr>amt = \<lparr>amount = 90, currency = ''USD''\<rparr>, creditor = Nishant,
       recipients = [Nishant, Steve, Joe], split = [1/2, 1/4, 1/4], desc = ''''\<rparr> Dim
     = Inr \<lparr>amount = 0, currency = ''USD''\<rparr>"
  using obligation_cases [of "\<lparr>amt = \<lparr>amount = 90, currency = ''USD''\<rparr>, creditor = Nishant,
       recipients = [Nishant, Steve, Joe], split = [1/2, 1/4, 1/4], desc = ''''\<rparr>" Nishant 0]
    obligation_cases [of "\<lparr>amt = \<lparr>amount = 90, currency = ''USD''\<rparr>, creditor = Nishant,
       recipients = [Nishant, Steve, Joe], split = [1/2, 1/4, 1/4], desc = ''''\<rparr>" Joe 2]
    obligation_cases [of "\<lparr>amt = \<lparr>amount = 90, currency = ''USD''\<rparr>, creditor = Nishant,
       recipients = [Nishant, Steve, Joe], split = [1/2, 1/4, 1/4], desc = ''''\<rparr>" Dim 0]
  by simp

text \<open>
  C10. For a participant who is neither the payer nor a recipient, \<open>obligation\<close> returns a
  zero in USD whatever the transaction's currency is; a value returned for the payer or a
  recipient carries the transaction's own currency.
\<close>

theorem obligation_currency:
  "(creditor t \<noteq> w \<and> w \<notin> set (recipients t) \<longrightarrow>
      obligation t w = Inr \<lparr>amount = 0, currency = ''USD''\<rparr>) \<and>
   ((creditor t = w \<or> w \<in> set (recipients t)) \<and> obligation t w = Inr v \<longrightarrow>
      currency v = currency (amt t))"
  by (auto simp: obligation_def money_scale_def Let_def split: if_splits)

theorem obligation_currency_witness:
  "obligation \<lparr>amt = \<lparr>amount = 90, currency = ''EUR''\<rparr>, creditor = Nishant,
       recipients = [Steve, Joe], split = [1/2, 1/2], desc = ''''\<rparr> Dim
     = Inr \<lparr>amount = 0, currency = ''USD''\<rparr> \<and>
   obligation \<lparr>amt = \<lparr>amount = 90, currency = ''EUR''\<rparr>, creditor = Nishant,
       recipients = [Steve, Joe], split = [1/2, 1/2], desc = ''''\<rparr> Joe
     = Inr \<lparr>amount = - 45, currency = ''EUR''\<rparr> \<and>
   currency \<lparr>amount = - 45, currency = ''EUR''\<rparr> = ''EUR''"
  using obligation_currency [of "\<lparr>amt = \<lparr>amount = 90, currency = ''EUR''\<rparr>, creditor = Nishant,
       recipients = [Steve, Joe], split = [1/2, 1/2], desc = ''''\<rparr>" Dim]
    obligation_currency [of "\<lparr>amt = \<lparr>amount = 90, currency = ''EUR''\<rparr>, creditor = Nishant,
       recipients = [Steve, Joe], split = [1/2, 1/2], desc = ''''\<rparr>" Joe "\<lparr>amount = - 45, currency = ''EUR''\<rparr>"]
  by (simp add: obligation_def money_scale_def)

subsection \<open>Rounding of concrete amounts\<close>

lemma floor_rat_numeral [simp]:
  "\<lfloor>numeral a / numeral b :: rat\<rfloor> = numeral a div numeral b"
  using floor_divide_of_int_eq [of "numeral a" "numeral b", where ?'a = rat] by simp

lemma floor_rat_neg_numeral [simp]:
  "\<lfloor>- (numeral a / numeral b) :: rat\<rfloor> = - numeral a div numeral b"
  using floor_divide_of_int_eq [of "- numeral a" "numeral b", where ?'a = rat] by simp

lemma quantize_100: "quantize 2 100 = 100"
  by (simp add: quantize_def round_half_even_def)

text \<open>The float \<^verbatim>\<open>1/1\<close> is exactly one; the float \<^verbatim>\<open>1/6\<close> is slightly below one sixth.\<close>

lemma float_recip_1: "float_recip (Suc 0) = 1"
  by code_simp

lemma float_recip_6: "float_recip 6 = 6004799503160661 / 2 ^ 55"
  by code_simp

section \<open>Ledgers: basic facts\<close>

lemma members_all: "w \<in> set members"
  by (cases w) (simp_all add: members_def)

lemma ledger_usd_iff: "ledger_usd m \<longleftrightarrow> (\<forall>w. currency (m w) = ''USD'')"
  by (auto simp: ledger_usd_def items_def list_all_iff members_all)

lemma all_zero_iff: "all_zero m \<longleftrightarrow> (\<forall>w. quantize 2 (amount (m w)) = 0)"
  by (auto simp: all_zero_def items_def list_all_iff members_all is_zero_def money_round_def)

lemma total_alt: "total m = (\<Sum>w\<leftarrow>members. amount (m w))"
  by (simp add: total_def items_def comp_def)

lemma total_upd: "total (m(w := v)) = total m - amount (m w) + amount v"
  by (cases w) (simp_all add: total_alt members_def)

lemma Money_to_same: "currency v = c \<Longrightarrow> Money_to xr c v = v"
  by (simp add: Money_to_def)

lemma Money_to_currency: "currency (Money_to xr c v) = c"
  by (simp add: Money_to_def)

lemma Money_to_scale:
  "amount (Money_to xr c (money_scale p v)) = p * amount (Money_to xr c v)"
  by (simp add: Money_to_def money_scale_def)

subsection \<open>Unfolding the settlement loop\<close>

lemma settle_loop_done: "all_zero m \<Longrightarrow> settle_loop xr m ps = Some (Inr (m, ps))"
  by (subst settle_loop.simps) simp

lemma settle_loop_step:
  "\<not> all_zero m \<Longrightarrow> settle_step xr m = Inr (m', p) \<Longrightarrow>
   settle_loop xr m ps = settle_loop xr m' (ps @ [p])"
  by (subst settle_loop.simps) simp

lemma settle_loop_err:
  "\<not> all_zero m \<Longrightarrow> settle_step xr m = Inl e \<Longrightarrow> settle_loop xr m ps = Some (Inl e)"
  by (subst settle_loop.simps) simp

section \<open>Rounding to zero, and the first minimum and maximum\<close>

lemma round_half_even_zero_iff: "round_half_even y = 0 \<longleftrightarrow> \<bar>y\<bar> \<le> 1 / 2"
proof -
  define f where "f = \<lfloor>y\<rfloor>"
  have b: "of_int f \<le> y" "y < of_int f + 1"
    unfolding f_def by linarith+
  consider "f = 0" | "f = - 1" | "f \<le> - 2" | "1 \<le> f" by linarith
  then show ?thesis
  proof cases
    case 1
    with b show ?thesis
      by (auto simp: round_half_even_def Let_def f_def [symmetric])
  next
    case 2
    with b show ?thesis
      by (auto simp: round_half_even_def Let_def f_def [symmetric])
  next
    case 3
    then have "(of_int f :: rat) \<le> - 2" by (metis of_int_le_iff of_int_minus of_int_numeral)
    with b 3 show ?thesis
      by (auto simp: round_half_even_def Let_def f_def [symmetric])
  next
    case 4
    then have "(1 :: rat) \<le> of_int f" by (metis of_int_le_iff of_int_1)
    with b 4 show ?thesis
      by (auto simp: round_half_even_def Let_def f_def [symmetric])
  qed
qed

lemma quantize_zero_iff: "quantize 2 x = 0 \<longleftrightarrow> \<bar>x\<bar> \<le> 1 / 200"
proof -
  have "quantize 2 x = 0 \<longleftrightarrow> round_half_even (x * 100) = 0"
    by (simp add: quantize_def)
  also have "\<dots> \<longleftrightarrow> \<bar>x * 100\<bar> \<le> 1 / 2"
    by (rule round_half_even_zero_iff)
  also have "\<dots> \<longleftrightarrow> \<bar>x\<bar> \<le> 1 / 200"
    by (simp add: abs_mult mult.commute)
  finally show ?thesis .
qed

lemma money_lt_same: "currency a = currency b \<Longrightarrow> money_lt xr a b \<longleftrightarrow> amount a < amount b"
  by (simp add: money_lt_def Money_to_def)

lemma money_gt_same: "currency a = currency b \<Longrightarrow> money_gt xr a b \<longleftrightarrow> amount b < amount a"
  by (simp add: money_gt_def Money_to_def)

lemma first_min_in: "first_min xr b xs \<in> set (b # xs)"
  by (induction xs arbitrary: b) auto

lemma first_max_in: "first_max xr b xs \<in> set (b # xs)"
  by (induction xs arbitrary: b) auto

lemma first_min_le:
  "\<forall>x\<in>set (b # xs). currency (snd x) = c \<Longrightarrow> x \<in> set (b # xs) \<Longrightarrow>
   amount (snd (first_min xr b xs)) \<le> amount (snd x)"
proof (induction xs arbitrary: b x)
  case Nil
  then show ?case by simp
next
  case (Cons y ys)
  let ?b' = "if money_lt xr (snd y) (snd b) then y else b"
  have cur: "\<forall>z\<in>set (?b' # ys). currency (snd z) = c"
    using Cons.prems(1) by auto
  have lt: "money_lt xr (snd y) (snd b) \<longleftrightarrow> amount (snd y) < amount (snd b)"
    using Cons.prems(1) by (simp add: money_lt_same)
  have "?b' \<in> set (?b' # ys)" by simp
  from Cons.IH [OF cur this]
  have m: "amount (snd (first_min xr ?b' ys)) \<le> amount (snd ?b')" .
  show ?case
  proof (cases "x \<in> set ys")
    case True
    then have "x \<in> set (?b' # ys)" by simp
    from Cons.IH [OF cur this] show ?thesis by simp
  next
    case False
    with Cons.prems(2) have "x = b \<or> x = y" by auto
    with m lt show ?thesis by (auto split: if_splits)
  qed
qed

lemma first_max_ge:
  "\<forall>x\<in>set (b # xs). currency (snd x) = c \<Longrightarrow> x \<in> set (b # xs) \<Longrightarrow>
   amount (snd x) \<le> amount (snd (first_max xr b xs))"
proof (induction xs arbitrary: b x)
  case Nil
  then show ?case by simp
next
  case (Cons y ys)
  let ?b' = "if money_gt xr (snd y) (snd b) then y else b"
  have cur: "\<forall>z\<in>set (?b' # ys). currency (snd z) = c"
    using Cons.prems(1) by auto
  have gt: "money_gt xr (snd y) (snd b) \<longleftrightarrow> amount (snd b) < amount (snd y)"
    using Cons.prems(1) by (simp add: money_gt_same)
  have "?b' \<in> set (?b' # ys)" by simp
  from Cons.IH [OF cur this]
  have m: "amount (snd ?b') \<le> amount (snd (first_max xr ?b' ys))" .
  show ?case
  proof (cases "x \<in> set ys")
    case True
    then have "x \<in> set (?b' # ys)" by simp
    from Cons.IH [OF cur this] show ?thesis by simp
  next
    case False
    with Cons.prems(2) have "x = b \<or> x = y" by auto
    with m gt show ?thesis by (auto split: if_splits)
  qed
qed

section \<open>The biggest debtor and the biggest creditor\<close>

lemma items_Cons:
  "items m = (Nishant, m Nishant) # map (\<lambda>w. (w, m w)) [Steve, Joe, Elton, John, Dim]"
  by (simp add: items_def members_def)

lemma item_in: "(w, m w) \<in> set (items m)"
  using members_all [of w] by (auto simp: items_def)

lemma items_usd: "ledger_usd m \<Longrightarrow> \<forall>x\<in>set (items m). currency (snd x) = ''USD''"
  by (auto simp: ledger_usd_iff items_def)

lemma biggestDebtor_item:
  assumes "ledger_usd m"
  shows "\<exists>wd. py_min xr (items m) = Inr (wd, m wd) \<and> (\<forall>w. amount (m wd) \<le> amount (m w))"
proof -
  define b where "b = (Nishant, m Nishant)"
  define xs where "xs = map (\<lambda>w. (w, m w)) [Steve, Joe, Elton, John, Dim]"
  define r where "r = first_min xr b xs"
  have it: "items m = b # xs"
    by (simp add: items_Cons b_def xs_def)
  have p: "py_min xr (items m) = Inr r"
    by (simp add: py_min_def it r_def)
  have "r \<in> set (items m)"
    unfolding it r_def by (rule first_min_in)
  then obtain wd where r': "r = (wd, m wd)"
    by (auto simp: items_def)
  have cur: "\<forall>x\<in>set (b # xs). currency (snd x) = ''USD''"
    using items_usd [OF assms] by (simp only: it)
  have "amount (snd r) \<le> amount (m w)" for w
  proof -
    have "(w, m w) \<in> set (b # xs)"
      using item_in [of w m] by (simp only: it)
    from first_min_le [OF cur this, of xr] show ?thesis
      by (simp only: r_def snd_conv)
  qed
  then have "\<forall>w. amount (m wd) \<le> amount (m w)"
    by (simp add: r')
  with p r' show ?thesis by blast
qed

lemma biggestCreditor_item:
  assumes "ledger_usd m"
  shows "\<exists>wc. py_max xr (items m) = Inr (wc, m wc) \<and> (\<forall>w. amount (m w) \<le> amount (m wc))"
proof -
  define b where "b = (Nishant, m Nishant)"
  define xs where "xs = map (\<lambda>w. (w, m w)) [Steve, Joe, Elton, John, Dim]"
  define r where "r = first_max xr b xs"
  have it: "items m = b # xs"
    by (simp add: items_Cons b_def xs_def)
  have p: "py_max xr (items m) = Inr r"
    by (simp add: py_max_def it r_def)
  have "r \<in> set (items m)"
    unfolding it r_def by (rule first_max_in)
  then obtain wc where r': "r = (wc, m wc)"
    by (auto simp: items_def)
  have cur: "\<forall>x\<in>set (b # xs). currency (snd x) = ''USD''"
    using items_usd [OF assms] by (simp only: it)
  have "amount (m w) \<le> amount (snd r)" for w
  proof -
    have "(w, m w) \<in> set (b # xs)"
      using item_in [of w m] by (simp only: it)
    from first_max_ge [OF cur this, of xr] show ?thesis
      by (simp only: r_def snd_conv)
  qed
  then have "\<forall>w. amount (m w) \<le> amount (m wc)"
    by (simp add: r')
  with p r' show ?thesis by blast
qed

text \<open>What one pass of the loop body does to a ledger in the base currency.\<close>

lemma settle_step_usd:
  assumes "ledger_usd m"
    and "py_min xr (items m) = Inr (wd, m wd)"
    and "py_max xr (items m) = Inr (wc, m wc)"
    and "wc \<noteq> wd"
    and "a = (if \<bar>amount (m wd)\<bar> < amount (m wc) then \<bar>amount (m wd)\<bar> else amount (m wc))"
  shows "settle_step xr m =
     Inr (m(wd := \<lparr>amount = amount (m wd) + a, currency = ''USD''\<rparr>,
            wc := \<lparr>amount = amount (m wc) - a, currency = ''USD''\<rparr>),
          Transaction_init \<lparr>amount = a, currency = ''USD''\<rparr> wc (Some [wd]) None '''')"
proof -
  have c: "currency (m wd) = ''USD''" "currency (m wc) = ''USD''"
    using assms(1) by (simp_all add: ledger_usd_iff)
  have mn: "money_min xr (m wc) (money_abs (m wd)) = \<lparr>amount = a, currency = ''USD''\<rparr>"
    using c by (simp add: money_min_def money_lt_def money_abs_def Money_to_def assms(5))
  have ad: "money_add xr (m wd) \<lparr>amount = a, currency = ''USD''\<rparr>
      = \<lparr>amount = amount (m wd) + a, currency = ''USD''\<rparr>"
    using c by (simp add: money_add_def Money_to_def)
  have sb: "money_sub xr (m wc) \<lparr>amount = a, currency = ''USD''\<rparr>
      = \<lparr>amount = amount (m wc) - a, currency = ''USD''\<rparr>"
    using c by (simp add: money_sub_def Money_to_def)
  show ?thesis
    unfolding settle_step_def assms(2,3)
    using assms(4) by (simp add: mn ad sb Let_def del: fun_upd_apply)
qed

section \<open>Balanced ledgers\<close>

lemma sum_list_ge_member:
  fixes f :: "'a \<Rightarrow> rat"
  shows "\<forall>x\<in>set xs. 0 \<le> f x \<Longrightarrow> w \<in> set xs \<Longrightarrow> f w \<le> sum_list (map f xs)"
proof (induction xs)
  case Nil
  then show ?case by simp
next
  case (Cons x xs)
  have nn: "0 \<le> sum_list (map f xs)"
    using Cons.prems(1) by (intro sum_list_nonneg) auto
  show ?case
  proof (cases "w = x")
    case True
    with nn show ?thesis by simp
  next
    case False
    with Cons have "f w \<le> sum_list (map f xs)" by simp
    moreover have "0 \<le> f x" using Cons.prems(1) by simp
    ultimately show ?thesis by simp
  qed
qed

lemma total_ge_balance: "\<forall>w. 0 \<le> amount (m w) \<Longrightarrow> amount (m w) \<le> total m"
  unfolding total_alt
  using sum_list_ge_member [of members "\<lambda>w. amount (m w)" w] members_all [of w] by simp

lemma total_le_balance: "\<forall>w. amount (m w) \<le> 0 \<Longrightarrow> total m \<le> amount (m w)"
proof -
  assume a: "\<forall>w. amount (m w) \<le> 0"
  have "- amount (m w) \<le> sum_list (map (\<lambda>w. - amount (m w)) members)"
    using sum_list_ge_member [of members "\<lambda>w. - amount (m w)" w] members_all [of w] a by simp
  also have "\<dots> = - total m"
    unfolding total_alt by (simp add: members_def)
  finally show ?thesis by simp
qed

text \<open>
  In a ledger that sums to zero within the tolerance and has a balance that does not
  round to zero, the smallest balance is negative and the largest is positive.
\<close>

lemma mixed_signs:
  assumes "zero_sum m" and "\<not> all_zero m"
    and lo: "\<forall>w. amount (m wd) \<le> amount (m w)"
    and hi: "\<forall>w. amount (m w) \<le> amount (m wc)"
  shows "amount (m wd) < 0 \<and> 0 < amount (m wc)"
proof -
  from assms(2) obtain w where w: "1 / 200 < \<bar>amount (m w)\<bar>"
    by (auto simp: all_zero_iff quantize_zero_iff not_le)
  from assms(1) have t: "\<bar>total m\<bar> \<le> 1 / 200"
    by (simp add: zero_sum_def quantize_zero_iff)
  have "amount (m wd) < 0"
  proof (rule ccontr)
    assume "\<not> amount (m wd) < 0"
    with lo have nn: "\<forall>v. 0 \<le> amount (m v)"
      by (meson not_less order_trans)
    from nn have "0 \<le> amount (m w)" by simp
    with total_ge_balance [OF nn, of w] w t show False
      by linarith
  qed
  moreover have "0 < amount (m wc)"
  proof (rule ccontr)
    assume "\<not> 0 < amount (m wc)"
    with hi have np: "\<forall>v. amount (m v) \<le> 0"
      by (meson not_less order_trans)
    from np have "amount (m w) \<le> 0" by simp
    with total_le_balance [OF np, of w] w t show False
      by linarith
  qed
  ultimately show ?thesis ..
qed

lemma ledger_usd_upd:
  "ledger_usd m \<Longrightarrow> currency v = ''USD'' \<Longrightarrow> ledger_usd (m(w := v))"
  by (simp add: ledger_usd_iff)

lemma finite_nonzero: "finite (nonzero m)"
  by (simp add: nonzero_def)

lemma card_nonzero_le: "card (nonzero m) \<le> length members"
proof -
  have "nonzero m \<subseteq> set members" by (auto simp: nonzero_def)
  then have "card (nonzero m) \<le> card (set members)"
    by (simp add: card_mono)
  also have "\<dots> \<le> length members" by (rule card_length)
  finally show ?thesis .
qed

text \<open>
  Two distinct participants with non-zero balances are given new balances, one of which
  is zero: fewer participants have a non-zero balance afterwards.
\<close>

lemma nonzero_decreases:
  assumes "wd \<noteq> wc" "amount (m wd) \<noteq> 0" "amount (m wc) \<noteq> 0"
    and "amount vd = 0 \<or> amount vc = 0"
  shows "card (nonzero (m(wd := vd, wc := vc))) < card (nonzero m)"
proof -
  let ?m' = "m(wd := vd, wc := vc)"
  have "\<exists>z. (z = wd \<or> z = wc) \<and> amount (?m' z) = 0"
  proof (cases "amount vc = 0")
    case True
    then show ?thesis by (intro exI [of _ wc]) simp
  next
    case False
    with assms(4) have "amount vd = 0" by simp
    with assms(1) show ?thesis by (intro exI [of _ wd]) simp
  qed
  then obtain z where z: "z = wd \<or> z = wc" "amount (?m' z) = 0"
    by blast
  have zin: "z \<in> nonzero m"
    using z(1) assms(2,3) by (auto simp: nonzero_def members_all)
  have sub: "nonzero ?m' \<subseteq> nonzero m"
    using assms(2,3) by (auto simp: nonzero_def split: if_splits)
  have "z \<notin> nonzero ?m'"
    using z(2) by (simp add: nonzero_def)
  with sub zin have "nonzero ?m' \<subset> nonzero m" by blast
  then show ?thesis
    by (rule psubset_card_mono [OF finite_nonzero])
qed

section \<open>One pass of the settlement loop\<close>

lemma two_nonzero:
  assumes "wd \<noteq> wc" "amount (m wd) \<noteq> 0" "amount (m wc) \<noteq> 0"
  shows "2 \<le> card (nonzero m)"
proof -
  have "{wd, wc} \<subseteq> nonzero m"
    using assms(2,3) by (simp add: nonzero_def members_all)
  then have "card {wd, wc} \<le> card (nonzero m)"
    by (rule card_mono [OF finite_nonzero])
  with assms(1) show ?thesis by simp
qed

text \<open>
  A pass of the loop body that goes through (the assertion holds) moves the same amount
  from the creditor to the debtor: the ledger stays in the base currency and keeps its
  total.
\<close>

lemma settle_step_total:
  assumes "ledger_usd m" and "settle_step xr m = Inr (m', p)"
  shows "ledger_usd m' \<and> total m' = total m"
proof -
  from biggestDebtor_item [OF assms(1), of xr] obtain wd
    where d: "py_min xr (items m) = Inr (wd, m wd)" by blast
  from biggestCreditor_item [OF assms(1), of xr] obtain wc
    where c: "py_max xr (items m) = Inr (wc, m wc)" by blast
  have ne: "wc \<noteq> wd"
    using assms(2) by (auto simp: settle_step_def d c)
  define a where "a = (if \<bar>amount (m wd)\<bar> < amount (m wc) then \<bar>amount (m wd)\<bar> else amount (m wc))"
  from settle_step_usd [OF assms(1) d c ne a_def] assms(2)
  have m': "m' = m(wd := \<lparr>amount = amount (m wd) + a, currency = ''USD''\<rparr>,
            wc := \<lparr>amount = amount (m wc) - a, currency = ''USD''\<rparr>)"
    by simp
  have "ledger_usd m'"
    unfolding m' using assms(1) by (simp add: ledger_usd_upd)
  moreover have "total m' = total m"
    unfolding m' using ne by (simp add: total_upd)
  ultimately show ?thesis ..
qed

text \<open>
  A pass of the loop body on a balanced ledger that does not yet round to zero: the
  debtor and the creditor are distinct, the pass goes through, and it sets the balance
  of the one with the smaller magnitude to zero.
\<close>

lemma settle_step_balanced:
  assumes "ledger_usd m" and "zero_sum m" and "\<not> all_zero m"
  shows "\<exists>wd wc m' p.
           py_min xr (items m) = Inr (wd, m wd) \<and> py_max xr (items m) = Inr (wc, m wc) \<and>
           wc \<noteq> wd \<and> amount (m wd) < 0 \<and> 0 < amount (m wc) \<and>
           settle_step xr m = Inr (m', p) \<and>
           (if \<bar>amount (m wd)\<bar> < amount (m wc) then amount (m' wd) = 0 else amount (m' wc) = 0) \<and>
           card (nonzero m') < card (nonzero m) \<and> 2 \<le> card (nonzero m)"
proof -
  from biggestDebtor_item [OF assms(1), of xr] obtain wd
    where d: "py_min xr (items m) = Inr (wd, m wd)" and lo: "\<forall>w. amount (m wd) \<le> amount (m w)"
    by blast
  from biggestCreditor_item [OF assms(1), of xr] obtain wc
    where c: "py_max xr (items m) = Inr (wc, m wc)" and hi: "\<forall>w. amount (m w) \<le> amount (m wc)"
    by blast
  from mixed_signs [OF assms(2,3) lo hi]
  have sg: "amount (m wd) < 0" "0 < amount (m wc)" by simp_all
  then have ne: "wc \<noteq> wd" by auto
  define a where "a = (if \<bar>amount (m wd)\<bar> < amount (m wc) then \<bar>amount (m wd)\<bar> else amount (m wc))"
  define vd where "vd = \<lparr>amount = amount (m wd) + a, currency = ''USD''\<rparr>"
  define vc where "vc = \<lparr>amount = amount (m wc) - a, currency = ''USD''\<rparr>"
  define p where "p = Transaction_init \<lparr>amount = a, currency = ''USD''\<rparr> wc (Some [wd]) None ''''"
  have st: "settle_step xr m = Inr (m(wd := vd, wc := vc), p)"
    unfolding vd_def vc_def p_def by (rule settle_step_usd [OF assms(1) d c ne a_def])
  have zd: "\<bar>amount (m wd)\<bar> < amount (m wc) \<Longrightarrow> amount vd = 0"
    using sg by (simp add: vd_def a_def)
  have zc: "\<not> \<bar>amount (m wd)\<bar> < amount (m wc) \<Longrightarrow> amount vc = 0"
    by (simp add: vc_def a_def)
  have z: "if \<bar>amount (m wd)\<bar> < amount (m wc)
           then amount ((m(wd := vd, wc := vc)) wd) = 0
           else amount ((m(wd := vd, wc := vc)) wc) = 0"
    using zd zc ne by simp
  have nzd: "amount (m wd) \<noteq> 0" and nzc: "amount (m wc) \<noteq> 0"
    using sg by simp_all
  have ne': "wd \<noteq> wc" using ne by simp
  have "amount vd = 0 \<or> amount vc = 0"
    using zd zc by blast
  from nonzero_decreases [OF ne' nzd nzc this]
  have dec: "card (nonzero (m(wd := vd, wc := vc))) < card (nonzero m)" .
  have two: "2 \<le> card (nonzero m)"
    by (rule two_nonzero [OF ne' nzd nzc])
  from d c ne sg st z dec two show ?thesis by blast
qed

section \<open>The settlement loop\<close>

text \<open>The loop ends on every balanced ledger, after fewer passes than there are non-zero balances.\<close>

lemma settle_loop_terminates:
  "ledger_usd m \<Longrightarrow> zero_sum m \<Longrightarrow>
   \<exists>m' qs. settle_loop xr m ps = Some (Inr (m', ps @ qs)) \<and> length qs \<le> card (nonzero m) - 1"
proof (induction "card (nonzero m)" arbitrary: m ps rule: less_induct)
  case less
  show ?case
  proof (cases "all_zero m")
    case True
    then have "settle_loop xr m ps = Some (Inr (m, ps @ []))"
      by (simp add: settle_loop_done)
    then show ?thesis by (intro exI [of _ m] exI [of _ "[]"]) simp
  next
    case False
    from settle_step_balanced [OF less.prems False, of xr] obtain m1 p
      where st: "settle_step xr m = Inr (m1, p)"
        and dec: "card (nonzero m1) < card (nonzero m)"
        and two: "2 \<le> card (nonzero m)"
      by blast
    from settle_step_total [OF less.prems(1) st]
    have u1: "ledger_usd m1" and t1: "total m1 = total m" by simp_all
    from less.prems(2) t1 have z1: "zero_sum m1"
      by (simp add: zero_sum_def)
    from less.hyps [OF dec u1 z1, of "ps @ [p]"] obtain m' qs
      where r: "settle_loop xr m1 (ps @ [p]) = Some (Inr (m', (ps @ [p]) @ qs))"
        and l: "length qs \<le> card (nonzero m1) - 1"
      by blast
    have "settle_loop xr m ps = Some (Inr (m', ps @ (p # qs)))"
      using settle_loop_step [OF False st, of ps] r by simp
    moreover have "length (p # qs) \<le> card (nonzero m) - 1"
      using l dec two by simp
    ultimately show ?thesis by blast
  qed
qed

text \<open>When the loop returns, the guard is false: every balance rounds to zero.\<close>

lemma settle_loop_all_zero:
  assumes "settle_loop xr m ps = Some y"
  shows "\<forall>m' ps'. y = Inr (m', ps') \<longrightarrow> all_zero m'"
  using assms
proof (induction xr m ps y rule: settle_loop.raw_induct)
  case (1 f xr m ps y)
  show ?case
  proof (cases "all_zero m")
    case True
    with "1.hyps" show ?thesis by auto
  next
    case False
    show ?thesis
    proof (intro allI impI)
      fix m' ps'
      assume y: "y = Inr (m', ps')"
      with False "1.hyps" obtain m1 p where st: "settle_step xr m = Inr (m1, p)"
        and r: "f xr m1 (ps @ [p]) = Some y"
        by (auto split: sum.splits prod.splits)
      have "settle_loop xr m1 (ps @ [p]) = Some y"
        using settle_loop_step [OF False st, of ps] "1.prems" by simp
      from "1.IH" [OF r this] y show "all_zero m'" by simp
    qed
  qed
qed (rule assms)

text \<open>
  The payments of a run are appended to the list the loop starts with, one per pass and
  in the order of the passes.
\<close>

lemma settle_loop_append:
  assumes "settle_loop xr m ps = Some y"
  shows "\<forall>m' ps'. y = Inr (m', ps') \<longrightarrow>
     (\<exists>qs. ps' = ps @ qs \<and> (\<forall>ps0. settle_loop xr m ps0 = Some (Inr (m', ps0 @ qs))))"
  using assms
proof (induction xr m ps y rule: settle_loop.raw_induct)
  case (1 f xr m ps y)
  show ?case
  proof (cases "all_zero m")
    case True
    with "1.hyps" have "y = Inr (m, ps)" by simp
    with True show ?thesis
      by (auto simp: settle_loop_done)
  next
    case False
    show ?thesis
    proof (intro allI impI)
      fix m' ps'
      assume y: "y = Inr (m', ps')"
      with False "1.hyps" obtain m1 p where st: "settle_step xr m = Inr (m1, p)"
        and r: "f xr m1 (ps @ [p]) = Some y"
        by (auto split: sum.splits prod.splits)
      have "settle_loop xr m1 (ps @ [p]) = Some y"
        using settle_loop_step [OF False st, of ps] "1.prems" by simp
      from "1.IH" [OF r this] y obtain qs where q: "ps' = (ps @ [p]) @ qs"
        and a: "\<forall>ps0. settle_loop xr m1 ps0 = Some (Inr (m', ps0 @ qs))"
        by blast
      have "settle_loop xr m ps0 = Some (Inr (m', ps0 @ (p # qs)))" for ps0
        using settle_loop_step [OF False st, of ps0] a by simp
      with q show "\<exists>qs. ps' = ps @ qs \<and> (\<forall>ps0. settle_loop xr m ps0 = Some (Inr (m', ps0 @ qs)))"
        by (intro exI [of _ "p # qs"]) simp
    qed
  qed
qed (rule assms)

text \<open>A run that returns leaves the total of the ledger as it found it.\<close>

lemma settle_loop_total:
  assumes "settle_loop xr m ps = Some y"
  shows "ledger_usd m \<longrightarrow>
    (\<forall>m' ps'. y = Inr (m', ps') \<longrightarrow> ledger_usd m' \<and> total m' = total m)"
  using assms
proof (induction xr m ps y rule: settle_loop.raw_induct)
  case (1 f xr m ps y)
  show ?case
  proof (cases "all_zero m")
    case True
    with "1.hyps" show ?thesis by auto
  next
    case False
    show ?thesis
    proof (intro allI impI)
      fix m' ps'
      assume u: "ledger_usd m" and y: "y = Inr (m', ps')"
      with False "1.hyps" obtain m1 p where st: "settle_step xr m = Inr (m1, p)"
        and r: "f xr m1 (ps @ [p]) = Some y"
        by (auto split: sum.splits prod.splits)
      have "settle_loop xr m1 (ps @ [p]) = Some y"
        using settle_loop_step [OF False st, of ps] "1.prems" by simp
      moreover from settle_step_total [OF u st] have "ledger_usd m1" "total m1 = total m"
        by simp_all
      ultimately show "ledger_usd m' \<and> total m' = total m"
        using "1.IH" [OF r] y by simp
    qed
  qed
qed (rule assms)

lemma settle_step_shape:
  assumes "ledger_usd m" and "settle_step xr m = Inr (m', p)"
  shows "\<exists>wd wc a. wc \<noteq> wd \<and>
           py_min xr (items m) = Inr (wd, m wd) \<and> py_max xr (items m) = Inr (wc, m wc) \<and>
           a = (if \<bar>amount (m wd)\<bar> < amount (m wc) then \<bar>amount (m wd)\<bar> else amount (m wc)) \<and>
           m' = m(wd := usd (amount (m wd) + a), wc := usd (amount (m wc) - a)) \<and>
           p = Transaction_init (usd a) wc (Some [wd]) None ''''"
proof -
  from biggestDebtor_item [OF assms(1), of xr] obtain wd
    where d: "py_min xr (items m) = Inr (wd, m wd)" by blast
  from biggestCreditor_item [OF assms(1), of xr] obtain wc
    where c: "py_max xr (items m) = Inr (wc, m wc)" by blast
  have ne: "wc \<noteq> wd"
    using assms(2) by (auto simp: settle_step_def d c)
  define a where "a = (if \<bar>amount (m wd)\<bar> < amount (m wc) then \<bar>amount (m wd)\<bar> else amount (m wc))"
  from settle_step_usd [OF assms(1) d c ne a_def] assms(2)
  have "m' = m(wd := usd (amount (m wd) + a), wc := usd (amount (m wc) - a))"
    and "p = Transaction_init (usd a) wc (Some [wd]) None ''''"
    by (simp_all add: usd_def)
  with ne d c a_def show ?thesis by blast
qed

lemma unique_min:
  assumes "ledger_usd m" and "\<forall>w. w \<noteq> c \<longrightarrow> amount (m c) < amount (m w)"
  shows "py_min xr (items m) = Inr (c, m c)"
proof -
  from biggestDebtor_item [OF assms(1), of xr] obtain wd
    where d: "py_min xr (items m) = Inr (wd, m wd)" and lo: "\<forall>w. amount (m wd) \<le> amount (m w)"
    by blast
  have "wd = c"
  proof (rule ccontr)
    assume "wd \<noteq> c"
    with assms(2) have "amount (m c) < amount (m wd)" by simp
    with lo show False by (simp add: not_less [symmetric])
  qed
  with d show ?thesis by simp
qed

lemma unique_max:
  assumes "ledger_usd m" and "\<forall>w. w \<noteq> c \<longrightarrow> amount (m w) < amount (m c)"
  shows "py_max xr (items m) = Inr (c, m c)"
proof -
  from biggestCreditor_item [OF assms(1), of xr] obtain wc
    where d: "py_max xr (items m) = Inr (wc, m wc)" and hi: "\<forall>w. amount (m w) \<le> amount (m wc)"
    by blast
  have "wc = c"
  proof (rule ccontr)
    assume "wc \<noteq> c"
    with assms(2) have "amount (m wc) < amount (m c)" by simp
    with hi show False by (simp add: not_less [symmetric])
  qed
  with d show ?thesis by simp
qed

lemma quantize_int: "quantize 2 (of_int k) = of_int k"
proof -
  have "of_int k * (100 :: rat) = of_int (k * 100)" by simp
  then have "round_half_even (of_int k * 100) = k * 100"
    unfolding round_half_even_def Let_def by (simp only: floor_of_int) simp
  then show ?thesis by (simp add: quantize_def)
qed

lemma total_zero_ledger: "total (\<lambda>_. usd 0) = 0"
  by (simp add: total_alt members_def usd_def)

section \<open>A settlement run\<close>

text \<open>
  A run of the settlement on the balances \<open>a = +30\<close>, \<open>b = -10\<close>, \<open>c = -20\<close>, everybody
  else at zero: two passes, then the guard is false.
\<close>

lemma settle_example:
  assumes d: "distinct [a, b, c]"
    and m: "m = (\<lambda>_. usd 0)(a := usd 30, b := usd (- 10), c := usd (- 20))"
    and m1: "m1 = m(c := usd 0, a := usd 10)"
    and m2: "m2 = m1(b := usd 0, a := usd 0)"
    and p1: "p1 = \<lparr>amt = usd 20, creditor = a, recipients = [c], split = [1], desc = ''''\<rparr>"
    and p2: "p2 = \<lparr>amt = usd 10, creditor = a, recipients = [b], split = [1], desc = ''''\<rparr>"
  shows "ledger_usd m" and "total m = 0" and "zero_sum m" and "\<not> all_zero m"
    and "settle_step xr m = Inr (m1, p1)"
    and "\<not> all_zero m1"
    and "settle_step xr m1 = Inr (m2, p2)"
    and "all_zero m2" and "\<forall>w. m2 w = usd 0"
    and "settle xr m = Some (Inr (m2, [p1, p2]))"
    and "settle xr m1 = Some (Inr (m2, [p2]))"
proof -
  from d have ne: "a \<noteq> b" "a \<noteq> c" "b \<noteq> c" by auto
  have q20: "quantize 2 20 = 20" and q10: "quantize 2 10 = 10"
    and q30: "quantize 2 30 = 30" and q0: "quantize 2 0 = 0"
    using quantize_int [of 20] quantize_int [of 10] quantize_int [of 30] quantize_int [of 0]
    by simp_all
  show u: "ledger_usd m"
    by (simp add: ledger_usd_iff m usd_def)
  show t: "total m = 0"
    using ne total_zero_ledger by (simp add: m total_upd usd_def)
  then show "zero_sum m"
    by (simp add: zero_sum_def q0)
  have "quantize 2 (amount (m a)) \<noteq> 0"
    using ne by (simp add: m usd_def q30)
  then show nz: "\<not> all_zero m"
    unfolding all_zero_iff by blast
  have mn: "py_min xr (items m) = Inr (c, m c)"
    by (rule unique_min [OF u]) (use ne in \<open>simp add: m usd_def\<close>)
  have mx: "py_max xr (items m) = Inr (a, m a)"
    by (rule unique_max [OF u]) (use ne in \<open>simp add: m usd_def\<close>)
  have a1: "(20 :: rat) = (if \<bar>amount (m c)\<bar> < amount (m a) then \<bar>amount (m c)\<bar> else amount (m a))"
    using ne by (simp add: m usd_def)
  have i1: "Transaction_init \<lparr>amount = 20, currency = ''USD''\<rparr> a (Some [c]) None '''' = p1"
    by (simp add: Transaction_init_def money_round_def q20 p1 usd_def float_recip_1)
  have v1: "\<lparr>amount = amount (m c) + 20, currency = ''USD''\<rparr> = usd 0"
    "\<lparr>amount = amount (m a) - 20, currency = ''USD''\<rparr> = usd 10"
    using ne by (simp_all add: m usd_def)
  from settle_step_usd [OF u mn mx ne(2) a1]
  show s1: "settle_step xr m = Inr (m1, p1)"
    by (simp only: i1 v1 m1)
  have u1: "ledger_usd m1"
    using u by (simp add: ledger_usd_iff m1 usd_def)
  have "quantize 2 (amount (m1 a)) \<noteq> 0"
    by (simp add: m1 usd_def q10)
  then show nz1: "\<not> all_zero m1"
    unfolding all_zero_iff by blast
  have mn1: "py_min xr (items m1) = Inr (b, m1 b)"
    by (rule unique_min [OF u1]) (use ne in \<open>simp add: m1 m usd_def\<close>)
  have mx1: "py_max xr (items m1) = Inr (a, m1 a)"
    by (rule unique_max [OF u1]) (use ne in \<open>simp add: m1 m usd_def\<close>)
  have a2: "(10 :: rat) = (if \<bar>amount (m1 b)\<bar> < amount (m1 a) then \<bar>amount (m1 b)\<bar> else amount (m1 a))"
    using ne by (simp add: m1 m usd_def)
  have i2: "Transaction_init \<lparr>amount = 10, currency = ''USD''\<rparr> a (Some [b]) None '''' = p2"
    by (simp add: Transaction_init_def money_round_def q10 p2 usd_def float_recip_1)
  have v2: "\<lparr>amount = amount (m1 b) + 10, currency = ''USD''\<rparr> = usd 0"
    "\<lparr>amount = amount (m1 a) - 10, currency = ''USD''\<rparr> = usd 0"
    using ne by (simp_all add: m1 m usd_def)
  from settle_step_usd [OF u1 mn1 mx1 ne(1) a2]
  show s2: "settle_step xr m1 = Inr (m2, p2)"
    by (simp only: i2 v2 m2)
  show z2: "\<forall>w. m2 w = usd 0"
    by (simp add: m2 m1 m)
  then show az: "all_zero m2"
    by (simp add: all_zero_iff usd_def q0)
  have l2: "settle_loop xr m1 ps = Some (Inr (m2, ps @ [p2]))" for ps
    using settle_loop_step [OF nz1 s2, of ps] settle_loop_done [OF az, of xr "ps @ [p2]"]
    by simp
  from l2 [of "[]"] show "settle xr m1 = Some (Inr (m2, [p2]))"
    by (simp add: settle_def)
  from settle_loop_step [OF nz s1, of "[]"] l2 [of "[p1]"]
  show "settle xr m = Some (Inr (m2, [p1, p2]))"
    by (simp add: settle_def)
qed

section \<open>Properties of the settlement\<close>

text \<open>
  C7. With the balances \<open>a = +30\<close>, \<open>b = -10\<close>, \<open>c = -20\<close> and every other member at zero,
  the settlement returns exactly two payments, in this order: 20 with payer \<open>a\<close> and
  recipient \<open>c\<close>, then 10 with payer \<open>a\<close> and recipient \<open>b\<close>, each with the split \<open>[1]\<close>
  and an empty description; every balance of the final ledger is zero.
\<close>

theorem settlement_end_to_end:
  "distinct [a, b, c] \<Longrightarrow>
   \<exists>m'. settle xr ((\<lambda>_. usd 0)(a := usd 30, b := usd (- 10), c := usd (- 20))) =
          Some (Inr (m',
            [\<lparr>amt = usd 20, creditor = a, recipients = [c], split = [1], desc = ''''\<rparr>,
             \<lparr>amt = usd 10, creditor = a, recipients = [b], split = [1], desc = ''''\<rparr>])) \<and>
        (\<forall>w. m' w = usd 0)"
proof -
  assume d: "distinct [a, b, c]"
  note ex = settle_example [OF d refl refl refl refl refl]
  from ex(9) ex(10) [of xr] show ?thesis by blast
qed

theorem settlement_end_to_end_witness:
  "distinct [Nishant, Steve, Joe] \<and>
   (\<exists>m'. settle (\<lambda>_ _. 1) ((\<lambda>_. usd 0)(Nishant := usd 30, Steve := usd (- 10), Joe := usd (- 20))) =
          Some (Inr (m',
            [\<lparr>amt = usd 20, creditor = Nishant, recipients = [Joe], split = [1], desc = ''''\<rparr>,
             \<lparr>amt = usd 10, creditor = Nishant, recipients = [Steve], split = [1], desc = ''''\<rparr>])) \<and>
        (\<forall>w. m' w = usd 0))"
  using settlement_end_to_end [of Nishant Steve Joe "\<lambda>_ _. 1"] by simp

text \<open>
  C2. On a ledger that sums to zero within the rounding tolerance, a pass of the loop sets
  to zero the balance of the debtor or of the creditor, whichever is smaller in magnitude,
  and leaves a ledger of the same kind; the loop ends, and it returns at most as many
  payments as there are participants minus one.
\<close>

theorem settlement_terminates:
  assumes "ledger_usd m" and "zero_sum m"
  shows "(\<not> all_zero m \<longrightarrow>
           (\<exists>wd wc m1 p.
              py_min xr (items m) = Inr (wd, m wd) \<and> py_max xr (items m) = Inr (wc, m wc) \<and>
              settle_step xr m = Inr (m1, p) \<and>
              (if \<bar>amount (m wd)\<bar> < amount (m wc)
               then amount (m1 wd) = 0 else amount (m1 wc) = 0) \<and>
              ledger_usd m1 \<and> zero_sum m1)) \<and>
         (\<exists>m' ps. settle xr m = Some (Inr (m', ps)) \<and> length ps \<le> length members - 1)"
proof
  show "\<not> all_zero m \<longrightarrow>
           (\<exists>wd wc m1 p.
              py_min xr (items m) = Inr (wd, m wd) \<and> py_max xr (items m) = Inr (wc, m wc) \<and>
              settle_step xr m = Inr (m1, p) \<and>
              (if \<bar>amount (m wd)\<bar> < amount (m wc)
               then amount (m1 wd) = 0 else amount (m1 wc) = 0) \<and>
              ledger_usd m1 \<and> zero_sum m1)"
  proof
    assume nz: "\<not> all_zero m"
    from settle_step_balanced [OF assms nz, of xr] obtain wd wc m1 p
      where a: "py_min xr (items m) = Inr (wd, m wd)" "py_max xr (items m) = Inr (wc, m wc)"
        and st: "settle_step xr m = Inr (m1, p)"
        and z: "if \<bar>amount (m wd)\<bar> < amount (m wc) then amount (m1 wd) = 0 else amount (m1 wc) = 0"
      by blast
    from settle_step_total [OF assms(1) st] assms(2)
    have "ledger_usd m1" "zero_sum m1"
      by (simp_all add: zero_sum_def)
    with a st z show "\<exists>wd wc m1 p.
              py_min xr (items m) = Inr (wd, m wd) \<and> py_max xr (items m) = Inr (wc, m wc) \<and>
              settle_step xr m = Inr (m1, p) \<and>
              (if \<bar>amount (m wd)\<bar> < amount (m wc)
               then amount (m1 wd) = 0 else amount (m1 wc) = 0) \<and>
              ledger_usd m1 \<and> zero_sum m1"
      by blast
  qed
next
  from settle_loop_terminates [OF assms, of xr "[]"] obtain m' qs
    where r: "settle xr m = Some (Inr (m', qs))" and l: "length qs \<le> card (nonzero m) - 1"
    by (auto simp: settle_def)
  from l card_nonzero_le [of m] have "length qs \<le> length members - 1"
    by simp
  with r show "\<exists>m' ps. settle xr m = Some (Inr (m', ps)) \<and> length ps \<le> length members - 1"
    by blast
qed

theorem settlement_terminates_witness:
  "ledger_usd ((\<lambda>_. usd 0)(Nishant := usd 30, Steve := usd (- 10), Joe := usd (- 20))) \<and>
   zero_sum ((\<lambda>_. usd 0)(Nishant := usd 30, Steve := usd (- 10), Joe := usd (- 20))) \<and>
   \<not> all_zero ((\<lambda>_. usd 0)(Nishant := usd 30, Steve := usd (- 10), Joe := usd (- 20))) \<and>
   (\<exists>m' ps. settle (\<lambda>_ _. 1) ((\<lambda>_. usd 0)(Nishant := usd 30, Steve := usd (- 10), Joe := usd (- 20)))
        = Some (Inr (m', ps)) \<and> length ps \<le> 5)"
proof -
  let ?m = "(\<lambda>_. usd 0)(Nishant := usd 30, Steve := usd (- 10), Joe := usd (- 20))"
  have d: "distinct [Nishant, Steve, Joe]" by simp
  note ex = settle_example [OF d refl refl refl refl refl]
  have h: "ledger_usd ?m" "zero_sum ?m" "\<not> all_zero ?m"
    by (rule ex)+
  from settlement_terminates [OF h(1,2), of "\<lambda>_ _. 1"]
  have "\<exists>m' ps. settle (\<lambda>_ _. 1) ?m = Some (Inr (m', ps)) \<and> length ps \<le> length members - 1"
    by (rule conjunct2)
  moreover have "length members - 1 = 5"
    by (simp add: members_def)
  ultimately have "\<exists>m' ps. settle (\<lambda>_ _. 1) ?m = Some (Inr (m', ps)) \<and> length ps \<le> 5"
    by (simp only:)
  with h show ?thesis by blast
qed

text \<open>
  C6. On a ledger that sums to zero within the rounding tolerance, the assertion of the
  loop body never fails: in a pass the biggest debtor and the biggest creditor are
  distinct participants, the ledger after the pass again sums to zero within the
  tolerance, and the whole run returns without an exception.
\<close>

theorem assertion_never_fails:
  assumes "ledger_usd m" and "zero_sum m"
  shows "(\<not> all_zero m \<longrightarrow>
           (\<exists>biggestDebtor biggestCreditor m1 p.
              py_min xr (items m) = Inr biggestDebtor \<and>
              py_max xr (items m) = Inr biggestCreditor \<and>
              fst biggestCreditor \<noteq> fst biggestDebtor \<and>
              settle_step xr m = Inr (m1, p) \<and> ledger_usd m1 \<and> zero_sum m1)) \<and>
         settle xr m \<noteq> Some (Inl AssertionError) \<and>
         (\<exists>r. settle xr m = Some (Inr r))"
proof (intro conjI impI)
  assume nz: "\<not> all_zero m"
  from settle_step_balanced [OF assms nz, of xr] obtain wd wc m1 p
    where a: "py_min xr (items m) = Inr (wd, m wd)" "py_max xr (items m) = Inr (wc, m wc)"
      and ne: "wc \<noteq> wd"
      and st: "settle_step xr m = Inr (m1, p)"
    by blast
  from settle_step_total [OF assms(1) st] assms(2)
  have "ledger_usd m1" "zero_sum m1"
    by (simp_all add: zero_sum_def)
  moreover from ne have "fst (wc, m wc) \<noteq> fst (wd, m wd)" by simp
  ultimately show "\<exists>biggestDebtor biggestCreditor m1 p.
              py_min xr (items m) = Inr biggestDebtor \<and>
              py_max xr (items m) = Inr biggestCreditor \<and>
              fst biggestCreditor \<noteq> fst biggestDebtor \<and>
              settle_step xr m = Inr (m1, p) \<and> ledger_usd m1 \<and> zero_sum m1"
    using a st by blast
next
  from settle_loop_terminates [OF assms, of xr "[]"] obtain m' qs
    where r: "settle xr m = Some (Inr (m', qs))"
    by (auto simp: settle_def)
  then show "settle xr m \<noteq> Some (Inl AssertionError)" by simp
  from r show "\<exists>r. settle xr m = Some (Inr r)" by blast
qed

theorem assertion_never_fails_witness:
  "ledger_usd ((\<lambda>_. usd 0)(Steve := usd 30, Joe := usd (- 10), Dim := usd (- 20))) \<and>
   zero_sum ((\<lambda>_. usd 0)(Steve := usd 30, Joe := usd (- 10), Dim := usd (- 20))) \<and>
   \<not> all_zero ((\<lambda>_. usd 0)(Steve := usd 30, Joe := usd (- 10), Dim := usd (- 20))) \<and>
   settle (\<lambda>_ _. 1) ((\<lambda>_. usd 0)(Steve := usd 30, Joe := usd (- 10), Dim := usd (- 20)))
     \<noteq> Some (Inl AssertionError)"
proof -
  let ?m = "(\<lambda>_. usd 0)(Steve := usd 30, Joe := usd (- 10), Dim := usd (- 20))"
  have d: "distinct [Steve, Joe, Dim]" by simp
  note ex = settle_example [OF d refl refl refl refl refl]
  have h: "ledger_usd ?m" "zero_sum ?m" "\<not> all_zero ?m"
    by (rule ex)+
  from assertion_never_fails [OF h(1,2), of "\<lambda>_ _. 1"]
  have "settle (\<lambda>_ _. 1) ?m \<noteq> Some (Inl AssertionError)"
    by blast
  with h show ?thesis by blast
qed

text \<open>
  C9. A pass of the settlement loop adds an amount to the debtor's balance and subtracts
  the same amount from the creditor's balance, and changes no other balance: the sum of
  all balances is the same after the pass, and so it is the same when the loop returns
  as when it was entered.
\<close>

theorem settlement_preserves_total:
  assumes "ledger_usd m"
  shows "(\<forall>m1 p. settle_step xr m = Inr (m1, p) \<longrightarrow>
            total m1 = total m \<and>
            (\<exists>wd wc a. wd \<noteq> wc \<and>
               py_min xr (items m) = Inr (wd, m wd) \<and> py_max xr (items m) = Inr (wc, m wc) \<and>
               amount (m1 wd) = amount (m wd) + a \<and>
               amount (m1 wc) = amount (m wc) - a \<and>
               (\<forall>w. w \<noteq> wd \<and> w \<noteq> wc \<longrightarrow> m1 w = m w))) \<and>
         (\<forall>m' ps. settle xr m = Some (Inr (m', ps)) \<longrightarrow> total m' = total m)"
proof (intro conjI allI impI)
  fix m1 p
  assume st: "settle_step xr m = Inr (m1, p)"
  from settle_step_total [OF assms st] show "total m1 = total m" by simp
  from settle_step_shape [OF assms st] obtain wd wc a
    where ne: "wc \<noteq> wd"
      and mm: "py_min xr (items m) = Inr (wd, m wd)" "py_max xr (items m) = Inr (wc, m wc)"
      and m1: "m1 = m(wd := usd (amount (m wd) + a), wc := usd (amount (m wc) - a))"
    by blast
  have "amount (m1 wd) = amount (m wd) + a"
    using ne by (simp add: m1 usd_def)
  moreover have "amount (m1 wc) = amount (m wc) - a"
    by (simp add: m1 usd_def)
  moreover have "\<forall>w. w \<noteq> wd \<and> w \<noteq> wc \<longrightarrow> m1 w = m w"
    by (simp add: m1)
  moreover have "wd \<noteq> wc" using ne by simp
  ultimately show "\<exists>wd wc a. wd \<noteq> wc \<and>
               py_min xr (items m) = Inr (wd, m wd) \<and> py_max xr (items m) = Inr (wc, m wc) \<and>
               amount (m1 wd) = amount (m wd) + a \<and>
               amount (m1 wc) = amount (m wc) - a \<and>
               (\<forall>w. w \<noteq> wd \<and> w \<noteq> wc \<longrightarrow> m1 w = m w)"
    using mm by blast
next
  fix m' ps
  assume "settle xr m = Some (Inr (m', ps))"
  then have "settle_loop xr m [] = Some (Inr (m', ps))"
    by (simp add: settle_def)
  from settle_loop_total [OF this] assms show "total m' = total m"
    by simp
qed

theorem settlement_preserves_total_witness:
  "ledger_usd ((\<lambda>_. usd 0)(Elton := usd 30, John := usd (- 10), Dim := usd (- 20))) \<and>
   settle_step (\<lambda>_ _. 1) ((\<lambda>_. usd 0)(Elton := usd 30, John := usd (- 10), Dim := usd (- 20)))
     = Inr (((\<lambda>_. usd 0)(Elton := usd 30, John := usd (- 10), Dim := usd (- 20)))
              (Dim := usd 0, Elton := usd 10),
            \<lparr>amt = usd 20, creditor = Elton, recipients = [Dim], split = [1], desc = ''''\<rparr>) \<and>
   total (((\<lambda>_. usd 0)(Elton := usd 30, John := usd (- 10), Dim := usd (- 20)))
              (Dim := usd 0, Elton := usd 10))
     = total ((\<lambda>_. usd 0)(Elton := usd 30, John := usd (- 10), Dim := usd (- 20)))"
proof -
  let ?m = "(\<lambda>_. usd 0)(Elton := usd 30, John := usd (- 10), Dim := usd (- 20))"
  let ?m1 = "?m(Dim := usd 0, Elton := usd 10)"
  let ?p = "\<lparr>amt = usd 20, creditor = Elton, recipients = [Dim], split = [1], desc = ''''\<rparr>"
  have d: "distinct [Elton, John, Dim]" by simp
  note ex = settle_example [OF d refl refl refl refl refl]
  have u: "ledger_usd ?m" by (rule ex)
  have st: "settle_step (\<lambda>_ _. 1) ?m = Inr (?m1, ?p)" by (rule ex)
  from settlement_preserves_total [OF u, of "\<lambda>_ _. 1"] st
  have "total ?m1 = total ?m" by blast
  with u st show ?thesis by blast
qed

section \<open>Properties of the accumulation\<close>

lemma debit_recipients_currency:
  "currency (debit_recipients xr t rps m w) = currency (m w)"
  by (induction rps arbitrary: m) (auto simp: money_sub_def)

lemma debit_recipients_amount:
  "amount (debit_recipients xr t rps m w) =
     amount (m w) -
     (\<Sum>(r, p)\<leftarrow>filter (\<lambda>(r, p). r = w) rps. p * amount (Money_to xr (currency (m w)) (amt t)))"
proof (induction rps arbitrary: m)
  case Nil
  then show ?case by simp
next
  case (Cons rp rps)
  obtain r p where rp: "rp = (r, p)" by (cases rp)
  show ?case
    unfolding rp
    by (simp add: Cons.IH money_sub_def Transaction_mul_def Money_to_scale)
qed

lemma accumulate_tx_currency: "currency (accumulate_tx xr m t w) = currency (m w)"
  by (simp add: accumulate_tx_def debit_recipients_currency money_add_def)

lemma accumulate_tx_amount:
  "amount (accumulate_tx xr m t w) =
     amount (m w) + (if creditor t = w then amount (Money_to xr (currency (m w)) (amt t)) else 0) -
     (\<Sum>(r, p)\<leftarrow>filter (\<lambda>(r, p). r = w) (zip (recipients t) (split t)).
         p * amount (Money_to xr (currency (m w)) (amt t)))"
  by (simp add: accumulate_tx_def debit_recipients_amount money_add_def)

lemma accumulate_snoc: "accumulate xr (ts @ [t]) = accumulate_tx xr (accumulate xr ts) t"
  by (simp add: accumulate_def)

lemma ledger_usd_init: "ledger_usd moneyOwed_init"
  by (simp add: ledger_usd_iff moneyOwed_init_def)

lemma ledger_usd_accumulate_tx: "ledger_usd m \<Longrightarrow> ledger_usd (accumulate_tx xr m t)"
  by (simp add: ledger_usd_iff accumulate_tx_currency)

lemma ledger_usd_accumulate: "ledger_usd (accumulate xr ts)"
  by (induction ts rule: rev_induct)
    (simp_all add: accumulate_snoc ledger_usd_accumulate_tx, simp add: accumulate_def ledger_usd_init)

lemma zip_filter_nth:
  fixes A :: rat
  shows "distinct rs \<Longrightarrow> i < length rs \<Longrightarrow> i < length ps \<Longrightarrow>
    (\<Sum>(r, p)\<leftarrow>filter (\<lambda>(r, p). r = rs ! i) (zip rs ps). p * A) = ps ! i * A"
proof (induction rs arbitrary: i ps)
  case Nil
  then show ?case by simp
next
  case (Cons r rs)
  from Cons.prems(3) obtain p ps' where ps: "ps = p # ps'"
    by (cases ps) auto
  show ?case
  proof (cases i)
    case 0
    have "filter (\<lambda>(r', p). r' = r) (zip rs ps') = []"
      using Cons.prems(1) by (auto simp: filter_empty_conv dest: set_zip_leftD)
    with 0 ps show ?thesis by simp
  next
    case (Suc j)
    with Cons.prems ps have j: "j < length rs" "j < length ps'" "distinct rs" "r \<noteq> rs ! j"
      by auto
    with Cons.IH [of j ps'] Suc ps show ?thesis by simp
  qed
qed

text \<open>
  C3. Accumulating a transaction credits its payer by the full amount and debits every
  (recipient, share) pair by share times amount, both in the base currency of the
  ledger; a payer who is also a recipient (once, with share \<open>split[i]\<close>) nets the amount
  times \<open>1 - split[i]\<close>.
\<close>

theorem accumulation_step:
  "(\<forall>w. amount (accumulate xr (ts @ [t]) w) =
          amount (accumulate xr ts w)
          + (if creditor t = w then amount (Money_to xr ''USD'' (amt t)) else 0)
          - (\<Sum>(r, p)\<leftarrow>filter (\<lambda>(r, p). r = w) (zip (recipients t) (split t)).
               p * amount (Money_to xr ''USD'' (amt t)))) \<and>
   (distinct (recipients t) \<and> i < length (recipients t) \<and> i < length (split t) \<and>
    recipients t ! i = creditor t \<longrightarrow>
      amount (accumulate xr (ts @ [t]) (creditor t)) =
        amount (accumulate xr ts (creditor t))
        + amount (Money_to xr ''USD'' (amt t)) * (1 - split t ! i))"
proof -
  define A where "A = amount (Money_to xr ''USD'' (amt t))"
  define m where "m = accumulate xr ts"
  have c: "currency (m w) = ''USD''" for w
    using ledger_usd_accumulate [of xr ts] by (simp add: ledger_usd_iff m_def)
  have a: "amount (accumulate xr (ts @ [t]) w) =
          amount (m w) + (if creditor t = w then A else 0)
          - (\<Sum>(r, p)\<leftarrow>filter (\<lambda>(r, p). r = w) (zip (recipients t) (split t)). p * A)" for w
    unfolding accumulate_snoc m_def [symmetric] A_def
    using accumulate_tx_amount [of xr m t w] by (simp only: c)
  have b: "amount (accumulate xr (ts @ [t]) (creditor t)) = amount (m (creditor t)) + A * (1 - split t ! i)"
    if "distinct (recipients t)" "i < length (recipients t)" "i < length (split t)"
      "recipients t ! i = creditor t"
  proof -
    from zip_filter_nth [OF that(1-3), of A] that(4)
    have "(\<Sum>(r, p)\<leftarrow>filter (\<lambda>(r, p). r = creditor t) (zip (recipients t) (split t)). p * A)
        = split t ! i * A" by simp
    with a [of "creditor t"] show ?thesis
      by (simp add: algebra_simps)
  qed
  from a b show ?thesis
    unfolding A_def m_def by blast
qed

theorem accumulation_step_witness:
  "amount (accumulate (\<lambda>_ _. 1)
      ([] @ [\<lparr>amt = usd 90, creditor = Nishant, recipients = [Nishant, Steve, Joe],
              split = [1/2, 1/4, 1/4], desc = ''''\<rparr>]) Nishant) = 45"
proof -
  let ?t = "\<lparr>amt = usd 90, creditor = Nishant, recipients = [Nishant, Steve, Joe],
              split = [1/2, 1/4, 1/4], desc = ''''\<rparr>"
  have h: "distinct (recipients ?t) \<and> 0 < length (recipients ?t) \<and> 0 < length (split ?t) \<and>
    recipients ?t ! 0 = creditor ?t"
    by simp
  from accumulation_step [of "\<lambda>_ _. 1" "[]" ?t 0] h
  have "amount (accumulate (\<lambda>_ _. 1) ([] @ [?t]) (creditor ?t)) =
        amount (accumulate (\<lambda>_ _. 1) [] (creditor ?t))
        + amount (Money_to (\<lambda>_ _. 1) ''USD'' (amt ?t)) * (1 - split ?t ! 0)"
    by blast
  then show ?thesis
    by (simp add: accumulate_def moneyOwed_init_def Money_to_def usd_def)
qed

lemma debit_recipients_total:
  "ledger_usd m \<Longrightarrow>
   total (debit_recipients xr t rps m) =
     total m - (\<Sum>(r, p)\<leftarrow>rps. p * amount (Money_to xr ''USD'' (amt t)))"
proof (induction rps arbitrary: m)
  case Nil
  then show ?case by simp
next
  case (Cons rp rps)
  obtain r p where rp: "rp = (r, p)" by (cases rp)
  let ?v = "money_sub xr (m r) (Transaction_mul t p)"
  have c: "currency (m r) = ''USD''"
    using Cons.prems by (simp add: ledger_usd_iff)
  have v: "amount ?v = amount (m r) - p * amount (Money_to xr ''USD'' (amt t))"
    by (simp add: money_sub_def Transaction_mul_def Money_to_scale c)
  have u: "ledger_usd (m(r := ?v))"
    using Cons.prems by (intro ledger_usd_upd) (simp_all add: money_sub_def c)
  have ih: "total (debit_recipients xr t rps (m(r := ?v))) =
      total (m(r := ?v)) - (\<Sum>(r, p)\<leftarrow>rps. p * amount (Money_to xr ''USD'' (amt t)))"
    using u by (rule Cons.IH)
  show ?case
    unfolding rp by (simp add: ih total_upd v)
qed

lemma accumulate_tx_total:
  assumes "ledger_usd m"
  shows "total (accumulate_tx xr m t) =
     total m + amount (Money_to xr ''USD'' (amt t))
               * (1 - sum_list (map snd (zip (recipients t) (split t))))"
proof -
  let ?A = "amount (Money_to xr ''USD'' (amt t))"
  let ?v = "money_add xr (m (creditor t)) (amt t)"
  have c: "currency (m (creditor t)) = ''USD''"
    using assms by (simp add: ledger_usd_iff)
  have v: "amount ?v = amount (m (creditor t)) + ?A"
    by (simp add: money_add_def c)
  have u: "ledger_usd (m(creditor t := ?v))"
    using assms by (intro ledger_usd_upd) (simp_all add: money_add_def c)
  have s: "(\<Sum>(r, p)\<leftarrow>rps. p * ?A) = ?A * sum_list (map snd rps)" for rps :: "(WildMan \<times> rat) list"
    by (induction rps) (auto simp: algebra_simps)
  show ?thesis
    unfolding accumulate_tx_def debit_recipients_total [OF u]
    by (simp add: total_upd v s algebra_simps)
qed

lemma accumulate_total_balanced:
  "\<forall>t\<in>set ts. sum_list (map snd (zip (recipients t) (split t))) = 1 \<Longrightarrow>
   total (accumulate xr ts) = 0"
proof (induction ts rule: rev_induct)
  case Nil
  then show ?case
    by (simp add: accumulate_def total_alt moneyOwed_init_def members_def)
next
  case (snoc t ts)
  then have "total (accumulate xr ts) = 0"
    and "sum_list (map snd (zip (recipients t) (split t))) = 1"
    by simp_all
  then show ?case
    by (simp add: accumulate_snoc accumulate_tx_total [OF ledger_usd_accumulate])
qed

text \<open>
  C5, for transactions whose shares sum to one. When the shares paired with the
  recipients of every transaction sum to one, the balances produced by the accumulation sum to exactly zero, hence to zero
  within the rounding tolerance; and accumulating one such transaction onto any ledger
  in the base currency leaves the sum of its balances unchanged.
\<close>

theorem conservation:
  assumes "\<forall>t\<in>set ts. sum_list (map snd (zip (recipients t) (split t))) = 1"
  shows "total (accumulate xr ts) = 0 \<and> zero_sum (accumulate xr ts) \<and>
         (\<forall>t m. t \<in> set ts \<and> ledger_usd m \<longrightarrow>
            total (accumulate_tx xr m t) = total m \<and>
            (zero_sum m \<longrightarrow> zero_sum (accumulate_tx xr m t)))"
proof -
  have t: "total (accumulate xr ts) = 0"
    using assms by (rule accumulate_total_balanced)
  have q: "quantize 2 0 = 0"
    using quantize_int [of 0] by simp
  have z: "zero_sum (accumulate xr ts)"
    by (simp add: zero_sum_def t q)
  have s: "total (accumulate_tx xr m t) = total m" if "t \<in> set ts" "ledger_usd m" for t m
    using assms that by (simp add: accumulate_tx_total)
  then have "zero_sum m \<longrightarrow> zero_sum (accumulate_tx xr m t)" if "t \<in> set ts" "ledger_usd m" for t m
    using that by (simp add: zero_sum_def)
  with t z s show ?thesis by blast
qed

theorem conservation_witness:
  "sum_list (map snd (zip
      (recipients \<lparr>amt = usd 90, creditor = Nishant, recipients = [Nishant, Steve, Joe],
                    split = [1/2, 1/4, 1/4], desc = ''''\<rparr>)
      (split \<lparr>amt = usd 90, creditor = Nishant, recipients = [Nishant, Steve, Joe],
               split = [1/2, 1/4, 1/4], desc = ''''\<rparr>))) = (1 :: rat) \<and>
   total (accumulate (\<lambda>_ _. 1)
      [\<lparr>amt = usd 90, creditor = Nishant, recipients = [Nishant, Steve, Joe],
        split = [1/2, 1/4, 1/4], desc = ''''\<rparr>]) = 0 \<and>
   zero_sum (accumulate (\<lambda>_ _. 1)
      [\<lparr>amt = usd 90, creditor = Nishant, recipients = [Nishant, Steve, Joe],
        split = [1/2, 1/4, 1/4], desc = ''''\<rparr>])"
proof -
  let ?t = "\<lparr>amt = usd 90, creditor = Nishant, recipients = [Nishant, Steve, Joe],
        split = [1/2, 1/4, 1/4], desc = ''''\<rparr>"
  have h: "\<forall>t\<in>set [?t]. sum_list (map snd (zip (recipients t) (split t))) = 1"
    by simp
  have h': "sum_list (map snd (zip (recipients ?t) (split ?t))) = (1 :: rat)"
    by simp
  from conservation [OF h, of "\<lambda>_ _. 1"] h' show ?thesis
    by blast
qed

text \<open>
  C5 does not hold for every transaction set: nothing makes the shares of a transaction
  sum to one. A single recipient who owes half of a payment of 90 leaves a total of 45,
  which does not round to zero.
\<close>

theorem conservation_counterexample:
  "\<not> zero_sum (accumulate (\<lambda>_ _. 1)
      [Transaction_init (usd 90) Steve (Some [Joe]) (Some [1/2]) ''lunch''])"
proof -
  have "quantize 2 90 = 90"
    using quantize_int [of 90] by simp
  then have "total (accumulate (\<lambda>_ _. 1)
      [Transaction_init (usd 90) Steve (Some [Joe]) (Some [1/2]) ''lunch'']) = 45"
    by (simp add: accumulate_def accumulate_tx_def moneyOwed_init_def Transaction_init_def
        Transaction_mul_def money_round_def money_add_def money_sub_def money_scale_def
        Money_to_def usd_def total_alt members_def)
  moreover have "quantize 2 45 \<noteq> 0"
    using quantize_int [of 45] by simp
  ultimately show ?thesis
    by (simp add: zero_sum_def)
qed

section \<open>A run that does not end\<close>

text \<open>
  Without the zero-sum precondition the loop need not end. After a payment of 90 by
  Steve of which Joe owes half, the first pass leaves Steve at +45 and everybody else at
  zero; from then on the biggest debtor is the first member at zero, the amount moved is
  zero, and the ledger never changes.
\<close>

lemma stuck_step:
  "settle_step xr ((\<lambda>_. usd 0)(Steve := usd 45)) =
     Inr ((\<lambda>_. usd 0)(Steve := usd 45),
          \<lparr>amt = usd 0, creditor = Steve, recipients = [Nishant], split = [1], desc = ''''\<rparr>)"
proof -
  let ?m = "(\<lambda>_. usd 0)(Steve := usd 45)"
  have u: "ledger_usd ?m"
    by (simp add: ledger_usd_iff usd_def)
  have mn: "py_min xr (items ?m) = Inr (Nishant, ?m Nishant)"
    by (simp add: py_min_def items_def members_def money_lt_def Money_to_def usd_def)
  have mx: "py_max xr (items ?m) = Inr (Steve, ?m Steve)"
    by (rule unique_max [OF u]) (simp add: usd_def)
  have a: "(0 :: rat) = (if \<bar>amount (?m Nishant)\<bar> < amount (?m Steve)
      then \<bar>amount (?m Nishant)\<bar> else amount (?m Steve))"
    by (simp add: usd_def)
  have ne: "Steve \<noteq> Nishant" by simp
  have q: "quantize 2 0 = 0"
    using quantize_int [of 0] by simp
  have i: "Transaction_init \<lparr>amount = 0, currency = ''USD''\<rparr> Steve (Some [Nishant]) None ''''
      = \<lparr>amt = usd 0, creditor = Steve, recipients = [Nishant], split = [1], desc = ''''\<rparr>"
    by (simp add: Transaction_init_def money_round_def q usd_def float_recip_1)
  have m': "?m(Nishant := \<lparr>amount = amount (?m Nishant) + 0, currency = ''USD''\<rparr>,
               Steve := \<lparr>amount = amount (?m Steve) - 0, currency = ''USD''\<rparr>) = ?m"
    by (auto simp: fun_eq_iff usd_def)
  from settle_step_usd [OF u mn mx ne a] show ?thesis
    by (simp only: i m')
qed

lemma stuck_not_zero: "\<not> all_zero ((\<lambda>_. usd 0)(Steve := usd 45))"
proof -
  have "quantize 2 (amount (((\<lambda>_. usd 0)(Steve := usd 45)) Steve)) \<noteq> 0"
    using quantize_int [of 45] by (simp add: usd_def)
  then show ?thesis
    unfolding all_zero_iff by blast
qed

lemma stuck_loop:
  assumes "settle_loop xr m ps = Some y"
  shows "m \<noteq> (\<lambda>_. usd 0)(Steve := usd 45)"
  using assms
proof (induction xr m ps y rule: settle_loop.raw_induct)
  case (1 f xr m ps y)
  show ?case
  proof
    assume m: "m = (\<lambda>_. usd 0)(Steve := usd 45)"
    let ?p = "\<lparr>amt = usd 0, creditor = Steve, recipients = [Nishant], split = [1], desc = ''''\<rparr>"
    have st: "settle_step xr m = Inr (m, ?p)"
      unfolding m by (rule stuck_step)
    have nz: "\<not> all_zero m"
      unfolding m by (rule stuck_not_zero)
    from "1.hyps" nz st have r: "f xr m (ps @ [?p]) = Some y"
      by simp
    have "settle_loop xr m (ps @ [?p]) = Some y"
      using settle_loop_step [OF nz st, of ps] "1.prems" by simp
    from "1.IH" [OF r this] m show False by simp
  qed
qed (rule assms)

lemma settle_diverges_example:
  "settle xr (accumulate xr [Transaction_init (usd 90) Steve (Some [Joe]) (Some [1/2]) ''lunch''])
     = None"
proof -
  let ?m0 = "(\<lambda>_. usd 0)(Steve := usd 90, Joe := usd (- 45))"
  let ?m1 = "(\<lambda>_. usd 0)(Steve := usd 45)"
  let ?p = "\<lparr>amt = usd 45, creditor = Steve, recipients = [Joe], split = [1], desc = ''''\<rparr>"
  have acc: "accumulate xr [Transaction_init (usd 90) Steve (Some [Joe]) (Some [1/2]) ''lunch''] = ?m0"
    using quantize_int [of 90]
    by (simp add: accumulate_def accumulate_tx_def moneyOwed_init_def Transaction_init_def
        Transaction_mul_def money_round_def money_add_def money_sub_def money_scale_def
        Money_to_def usd_def)
  have u: "ledger_usd ?m0"
    by (simp add: ledger_usd_iff usd_def)
  have mn: "py_min xr (items ?m0) = Inr (Joe, ?m0 Joe)"
    by (rule unique_min [OF u]) (simp add: usd_def)
  have mx: "py_max xr (items ?m0) = Inr (Steve, ?m0 Steve)"
    by (rule unique_max [OF u]) (simp add: usd_def)
  have a: "(45 :: rat) = (if \<bar>amount (?m0 Joe)\<bar> < amount (?m0 Steve)
      then \<bar>amount (?m0 Joe)\<bar> else amount (?m0 Steve))"
    by (simp add: usd_def)
  have ne: "Steve \<noteq> Joe" by simp
  have i: "Transaction_init \<lparr>amount = 45, currency = ''USD''\<rparr> Steve (Some [Joe]) None '''' = ?p"
    using quantize_int [of 45]
    by (simp add: Transaction_init_def money_round_def usd_def float_recip_1)
  have m': "?m0(Joe := \<lparr>amount = amount (?m0 Joe) + 45, currency = ''USD''\<rparr>,
               Steve := \<lparr>amount = amount (?m0 Steve) - 45, currency = ''USD''\<rparr>) = ?m1"
    by (auto simp: fun_eq_iff usd_def)
  from settle_step_usd [OF u mn mx ne a] have st: "settle_step xr ?m0 = Inr (?m1, ?p)"
    by (simp only: i m')
  have "quantize 2 (amount (?m0 Steve)) \<noteq> 0"
    using quantize_int [of 90] by (simp add: usd_def)
  then have nz: "\<not> all_zero ?m0"
    unfolding all_zero_iff by blast
  have "settle_loop xr ?m1 [?p] = None"
  proof (cases "settle_loop xr ?m1 [?p]")
    case None
    then show ?thesis .
  next
    case (Some y)
    from stuck_loop [OF this] show ?thesis by simp
  qed
  with settle_loop_step [OF nz st, of "[]"] show ?thesis
    by (simp add: settle_def acc)
qed

section \<open>The even split by default\<close>

lemma index_of_less: "w \<in> set xs \<Longrightarrow> index_of xs w < length xs"
  by (induction xs) auto

lemma length_members: "length members = 6"
  by (simp add: members_def)

lemma even_split_init:
  "Transaction_init (usd 100) c None None d =
     \<lparr>amt = usd 100, creditor = c, recipients = members,
      split = map (\<lambda>_. float_recip 6) members, desc = d\<rparr>"
  by (simp add: Transaction_init_def money_round_def quantize_100 usd_def length_members)

lemma even_split_obligation:
  assumes "w \<noteq> c"
  shows "obligation (Transaction_init (usd 100) c None None d) w
     = Inr (money_scale (- float_recip 6) (usd 100))"
proof -
  have i: "index_of members w < length members"
    by (rule index_of_less [OF members_all])
  then have "map (\<lambda>_. float_recip 6) members ! index_of members w = float_recip 6"
    by (rule nth_map)
  with i assms show ?thesis
    by (simp add: even_split_init obligation_def members_all)
qed

lemma even_split_amount:
  "amount (money_scale (- float_recip 6) (usd 100)) = - (6004799503160661 / 2 ^ 55 * 100)"
  by (simp add: money_scale_def usd_def float_recip_6)

lemma even_split_cents:
  "quantize 2 (- (6004799503160661 / 2 ^ 55 * 100)) = - (1667 / 100)"
  by code_simp

lemma even_split_rounded:
  "money_round 2 (money_scale (- float_recip 6) (usd 100)) = \<lparr>amount = - (1667 / 100), currency = ''USD''\<rparr>"
  using even_split_cents
  by (simp add: money_round_def even_split_amount) (simp add: money_scale_def usd_def)

lemma non_payers: "length (filter (\<lambda>w. w \<noteq> c) members) = 5"
  by (cases c) (simp_all add: members_def)

lemma even_split_total:
  "(\<Sum>w\<leftarrow>filter (\<lambda>w. w \<noteq> c) members.
      case obligation (Transaction_init (usd 100) c None None d) w of
        Inl e \<Rightarrow> 0 | Inr v \<Rightarrow> - amount v)
   = 5 * (6004799503160661 / 2 ^ 55 * 100)"
proof -
  have "(\<Sum>w\<leftarrow>filter (\<lambda>w. w \<noteq> c) members.
      case obligation (Transaction_init (usd 100) c None None d) w of
        Inl e \<Rightarrow> 0 | Inr v \<Rightarrow> - amount v)
    = (\<Sum>w\<leftarrow>filter (\<lambda>w. w \<noteq> c) members. 6004799503160661 / 2 ^ 55 * 100)"
    by (rule arg_cong [where f = sum_list], rule map_cong)
      (simp_all add: even_split_obligation even_split_amount)
  also have "\<dots> = of_nat (length (filter (\<lambda>w. w \<noteq> c) members)) * (6004799503160661 / 2 ^ 55 * 100)"
    by (simp only: sum_list_triv)
  finally show ?thesis
    by (simp add: non_payers)
qed

lemma even_split_total_rounded:
  "(\<Sum>w\<leftarrow>filter (\<lambda>w. w \<noteq> c) members.
      case obligation (Transaction_init (usd 100) c None None d) w of
        Inl e \<Rightarrow> 0 | Inr v \<Rightarrow> - amount (money_round 2 v))
   = 8335 / 100"
proof -
  have "(\<Sum>w\<leftarrow>filter (\<lambda>w. w \<noteq> c) members.
      case obligation (Transaction_init (usd 100) c None None d) w of
        Inl e \<Rightarrow> 0 | Inr v \<Rightarrow> - amount (money_round 2 v))
    = (\<Sum>w\<leftarrow>filter (\<lambda>w. w \<noteq> c) members. 1667 / 100)"
    by (rule arg_cong [where f = sum_list], rule map_cong)
      (simp_all add: even_split_obligation even_split_rounded)
  also have "\<dots> = of_nat (length (filter (\<lambda>w. w \<noteq> c) members)) * (1667 / 100)"
    by (simp only: sum_list_triv)
  finally show ?thesis
    by (simp add: non_payers)
qed

text \<open>
  C8. A transaction of 100 USD built without recipients and without a split has the six
  members of the registry as recipients, and for each the share that the float \<^verbatim>\<open>1/6\<close>
  denotes, which is within \<open>2 ^ -56\<close> of one sixth. Every member other than the payer
  then has an obligation that is not \<open>-16.67\<close> but within \<open>10 ^ -12\<close> of \<open>-100/6\<close>, and
  that is \<open>-16.67\<close> once rounded to cents. The five obligations as returned sum to an
  amount within a cent of 83.33; rounded to cents one by one they sum to 83.35.
\<close>

theorem even_split_default:
  "let t = Transaction_init (usd 100) c None None d;
       owed = (\<Sum>w\<leftarrow>filter (\<lambda>w. w \<noteq> c) members.
                 case obligation t w of Inl e \<Rightarrow> 0 | Inr v \<Rightarrow> - amount v);
       owed_in_cents = (\<Sum>w\<leftarrow>filter (\<lambda>w. w \<noteq> c) members.
                 case obligation t w of Inl e \<Rightarrow> 0 | Inr v \<Rightarrow> - amount (money_round 2 v))
   in recipients t = members \<and> length members = 6 \<and>
      split t = map (\<lambda>_. 6004799503160661 / 2 ^ 55) members \<and>
      \<bar>6004799503160661 / 2 ^ 55 - 1 / 6 :: rat\<bar> \<le> 1 / 2 ^ 56 \<and>
      (\<forall>w. w \<noteq> c \<longrightarrow>
         (\<exists>v. obligation t w = Inr v \<and>
              money_round 2 v = \<lparr>amount = - (1667 / 100), currency = ''USD''\<rparr> \<and>
              amount v \<noteq> - (1667 / 100) \<and>
              \<bar>amount v + 100 / 6\<bar> < 1 / 10 ^ 12)) \<and>
      \<bar>owed - 8333 / 100\<bar> \<le> 1 / 100 \<and>
      owed_in_cents = 8335 / 100"
proof -
  define t where "t = Transaction_init (usd 100) c None None d"
  have r: "recipients t = members"
    by (simp add: t_def even_split_init)
  have s: "split t = map (\<lambda>_. 6004799503160661 / 2 ^ 55) members"
    by (simp add: t_def even_split_init float_recip_6)
  have f: "\<bar>6004799503160661 / 2 ^ 55 - 1 / 6 :: rat\<bar> \<le> 1 / 2 ^ 56"
    by simp
  have o: "\<exists>v. obligation t w = Inr v \<and>
              money_round 2 v = \<lparr>amount = - (1667 / 100), currency = ''USD''\<rparr> \<and>
              amount v \<noteq> - (1667 / 100) \<and>
              \<bar>amount v + 100 / 6\<bar> < 1 / 10 ^ 12" if "w \<noteq> c" for w
  proof (intro exI conjI)
    show "obligation t w = Inr (money_scale (- float_recip 6) (usd 100))"
      unfolding t_def by (rule even_split_obligation [OF that])
    show "money_round 2 (money_scale (- float_recip 6) (usd 100))
        = \<lparr>amount = - (1667 / 100), currency = ''USD''\<rparr>"
      by (rule even_split_rounded)
    show "amount (money_scale (- float_recip 6) (usd 100)) \<noteq> - (1667 / 100)"
      by (simp add: even_split_amount)
    show "\<bar>amount (money_scale (- float_recip 6) (usd 100)) + 100 / 6\<bar> < 1 / 10 ^ 12"
      by (simp add: even_split_amount)
  qed
  have w: "\<bar>(\<Sum>w\<leftarrow>filter (\<lambda>w. w \<noteq> c) members.
                 case obligation t w of Inl e \<Rightarrow> 0 | Inr v \<Rightarrow> - amount v) - 8333 / 100\<bar> \<le> 1 / 100"
    unfolding t_def even_split_total by simp
  have wc: "(\<Sum>w\<leftarrow>filter (\<lambda>w. w \<noteq> c) members.
                 case obligation t w of Inl e \<Rightarrow> 0 | Inr v \<Rightarrow> - amount (money_round 2 v)) = 8335 / 100"
    unfolding t_def by (rule even_split_total_rounded)
  from r length_members s f o w wc show ?thesis
    unfolding Let_def t_def [symmetric] by blast
qed

theorem even_split_default_witness:
  "Steve \<noteq> Nishant \<and>
   (\<exists>v. obligation (Transaction_init (usd 100) Nishant None None ''taxi'') Steve = Inr v \<and>
        money_round 2 v = \<lparr>amount = - (1667 / 100), currency = ''USD''\<rparr>)"
proof -
  have h: "Steve \<noteq> Nishant" by simp
  from even_split_default [of Nishant "''taxi''"] h
  have "\<exists>v. obligation (Transaction_init (usd 100) Nishant None None ''taxi'') Steve = Inr v \<and>
        money_round 2 v = \<lparr>amount = - (1667 / 100), currency = ''USD''\<rparr>"
    unfolding Let_def by blast
  with h show ?thesis ..
qed

text \<open>
  C8 as the spec words it does not hold: the obligation of a member other than the payer
  is not exactly \<open>-16.67\<close>, and the five obligations sum to about 83.3333, which is more
  than a cent away from 83.35.
\<close>

theorem even_split_default_counterexample:
  "obligation (Transaction_init (usd 100) Nishant None None ''taxi'') Steve
     \<noteq> Inr \<lparr>amount = - (1667 / 100), currency = ''USD''\<rparr> \<and>
   \<not> \<bar>(\<Sum>w\<leftarrow>filter (\<lambda>w. w \<noteq> Nishant) members.
          case obligation (Transaction_init (usd 100) Nishant None None ''taxi'') w of
            Inl e \<Rightarrow> 0 | Inr v \<Rightarrow> - amount v) - 8335 / 100\<bar> \<le> 1 / 100"
proof
  have "obligation (Transaction_init (usd 100) Nishant None None ''taxi'') Steve
      = Inr (money_scale (- float_recip 6) (usd 100))"
    by (rule even_split_obligation) simp
  moreover have "amount (money_scale (- float_recip 6) (usd 100)) \<noteq> - (1667 / 100)"
    by (simp add: even_split_amount)
  ultimately show "obligation (Transaction_init (usd 100) Nishant None None ''taxi'') Steve
     \<noteq> Inr \<lparr>amount = - (1667 / 100), currency = ''USD''\<rparr>"
    by auto
  show "\<not> \<bar>(\<Sum>w\<leftarrow>filter (\<lambda>w. w \<noteq> Nishant) members.
          case obligation (Transaction_init (usd 100) Nishant None None ''taxi'') w of
            Inl e \<Rightarrow> 0 | Inr v \<Rightarrow> - amount v) - 8335 / 100\<bar> \<le> 1 / 100"
    unfolding even_split_total by simp
qed

section \<open>Correctness of the settlement\<close>

lemma accumulate_example:
  "accumulate xr
     [Transaction_init (usd 40) Nishant (Some [Nishant, Steve, Joe]) (Some [1/4, 1/4, 1/2]) ''dinner'']
     = (\<lambda>_. usd 0)(Nishant := usd 30, Steve := usd (- 10), Joe := usd (- 20))"
  using quantize_int [of 40]
  by (simp add: accumulate_def accumulate_tx_def moneyOwed_init_def Transaction_init_def
      Transaction_mul_def money_round_def money_add_def money_sub_def money_scale_def
      Money_to_def usd_def)

text \<open>
  C1, for ledgers that sum to zero within the rounding tolerance. The accumulation hands
  the settlement a ledger in the base currency. On every such ledger that sums to zero
  within the tolerance the settlement loop returns; every balance of the ledger it leaves
  rounds to zero at two decimals; and the payments are returned in the order in which
  they were emitted: none if the guard is false at entry, otherwise the payment of the
  first pass followed by the payments of the run that continues from the ledger after
  that pass, which is again a ledger of this kind.
\<close>

theorem settlement_correct:
  "ledger_usd (accumulate xr ts) \<and>
   (ledger_usd m \<and> zero_sum m \<longrightarrow>
      (\<exists>m' ps. settle xr m = Some (Inr (m', ps)) \<and>
         (\<forall>w. is_zero (money_round 2 (m' w))) \<and>
         (if all_zero m then m' = m \<and> ps = []
          else \<exists>m1 p qs. settle_step xr m = Inr (m1, p) \<and> ledger_usd m1 \<and> zero_sum m1 \<and>
                 settle xr m1 = Some (Inr (m', qs)) \<and> ps = p # qs)))"
proof (rule conjI)
  show "ledger_usd (accumulate xr ts)"
    by (rule ledger_usd_accumulate)
next
  show "ledger_usd m \<and> zero_sum m \<longrightarrow>
      (\<exists>m' ps. settle xr m = Some (Inr (m', ps)) \<and>
         (\<forall>w. is_zero (money_round 2 (m' w))) \<and>
         (if all_zero m then m' = m \<and> ps = []
          else \<exists>m1 p qs. settle_step xr m = Inr (m1, p) \<and> ledger_usd m1 \<and> zero_sum m1 \<and>
                 settle xr m1 = Some (Inr (m', qs)) \<and> ps = p # qs))"
  proof
    assume "ledger_usd m \<and> zero_sum m"
    then have u: "ledger_usd m" and z: "zero_sum m" by simp_all
    from settle_loop_terminates [OF u z, of xr "[]"] obtain m' ps
      where l: "settle_loop xr m [] = Some (Inr (m', ps))"
      by auto
    then have r: "settle xr m = Some (Inr (m', ps))"
      by (simp add: settle_def)
    from settle_loop_all_zero [OF l] have "all_zero m'" by simp
    then have a: "\<forall>w. is_zero (money_round 2 (m' w))"
      by (simp add: all_zero_iff is_zero_def money_round_def)
    have o: "if all_zero m then m' = m \<and> ps = []
          else \<exists>m1 p qs. settle_step xr m = Inr (m1, p) \<and> ledger_usd m1 \<and> zero_sum m1 \<and>
                 settle xr m1 = Some (Inr (m', qs)) \<and> ps = p # qs"
    proof (cases "all_zero m")
      case True
      with l settle_loop_done [OF True, of xr "[]"] show ?thesis by simp
    next
      case False
      from settle_step_balanced [OF u z False, of xr] obtain m1 p
        where st: "settle_step xr m = Inr (m1, p)" by blast
      from settle_step_total [OF u st] z have u1: "ledger_usd m1" and z1: "zero_sum m1"
        by (simp_all add: zero_sum_def)
      from settle_loop_step [OF False st, of "[]"] l
      have l1: "settle_loop xr m1 [p] = Some (Inr (m', ps))" by simp
      from settle_loop_append [OF l1] obtain qs where q: "ps = [p] @ qs"
        and ap: "\<forall>ps0. settle_loop xr m1 ps0 = Some (Inr (m', ps0 @ qs))"
        by blast
      from ap have "settle xr m1 = Some (Inr (m', qs))"
        by (simp add: settle_def)
      with st q u1 z1 False show ?thesis by simp
    qed
    from r a o show "\<exists>m' ps. settle xr m = Some (Inr (m', ps)) \<and>
         (\<forall>w. is_zero (money_round 2 (m' w))) \<and>
         (if all_zero m then m' = m \<and> ps = []
          else \<exists>m1 p qs. settle_step xr m = Inr (m1, p) \<and> ledger_usd m1 \<and> zero_sum m1 \<and>
                 settle xr m1 = Some (Inr (m', qs)) \<and> ps = p # qs)"
      by blast
  qed
qed

theorem settlement_correct_witness:
  "ledger_usd (accumulate (\<lambda>_ _. 1)
      [Transaction_init (usd 40) Nishant (Some [Nishant, Steve, Joe]) (Some [1/4, 1/4, 1/2]) ''dinner'']) \<and>
   zero_sum (accumulate (\<lambda>_ _. 1)
      [Transaction_init (usd 40) Nishant (Some [Nishant, Steve, Joe]) (Some [1/4, 1/4, 1/2]) ''dinner'']) \<and>
   (\<exists>m'. settle (\<lambda>_ _. 1)
          (accumulate (\<lambda>_ _. 1)
             [Transaction_init (usd 40) Nishant (Some [Nishant, Steve, Joe]) (Some [1/4, 1/4, 1/2]) ''dinner''])
        = Some (Inr (m',
            [\<lparr>amt = usd 20, creditor = Nishant, recipients = [Joe], split = [1], desc = ''''\<rparr>,
             \<lparr>amt = usd 10, creditor = Nishant, recipients = [Steve], split = [1], desc = ''''\<rparr>])) \<and>
      (\<forall>w. is_zero (money_round 2 (m' w))))"
proof -
  let ?m = "(\<lambda>_. usd 0)(Nishant := usd 30, Steve := usd (- 10), Joe := usd (- 20))"
  let ?ps = "[\<lparr>amt = usd 20, creditor = Nishant, recipients = [Joe], split = [1], desc = ''''\<rparr>,
             \<lparr>amt = usd 10, creditor = Nishant, recipients = [Steve], split = [1], desc = ''''\<rparr>]"
  have d: "distinct [Nishant, Steve, Joe]" by simp
  note ex = settle_example [OF d refl refl refl refl refl]
  have u: "ledger_usd ?m" and z: "zero_sum ?m"
    by (rule ex)+
  from ex(10) [of "\<lambda>_ _. 1"] obtain m2 where
    r: "settle (\<lambda>_ _. 1) ?m = Some (Inr (m2, ?ps))"
    by blast
  from settlement_correct [of "\<lambda>_ _. 1" "[]" ?m] u z
  obtain m' ps where "settle (\<lambda>_ _. 1) ?m = Some (Inr (m', ps))"
    and a: "\<forall>w. is_zero (money_round 2 (m' w))"
    by blast
  with r have "m' = m2" by simp
  with a r have "\<exists>m'. settle (\<lambda>_ _. 1) ?m = Some (Inr (m', ?ps)) \<and>
      (\<forall>w. is_zero (money_round 2 (m' w)))"
    by blast
  with u z show ?thesis
    unfolding accumulate_example by blast
qed

text \<open>
  C1 does not hold for every ledger the accumulation can hand over: after a payment of
  90 by Steve of which Joe owes half, the settlement loop never returns, so no balance
  is ever reported as rounding to zero.
\<close>

theorem settlement_correct_counterexample:
  "settle (\<lambda>_ _. 1)
     (accumulate (\<lambda>_ _. 1) [Transaction_init (usd 90) Steve (Some [Joe]) (Some [1/2]) ''lunch''])
   = None"
  by (rule settle_diverges_example)

end
